theory Spec2Isabelle
  imports Main
begin

section \<open>Strings and characters\<close>

text \<open>
  A JavaScript string is a sequence of UTF-16 code units. The model is \<^typ>\<open>string\<close>:
  a \<^typ>\<open>char\<close> stands for the code unit with the same number, so the texts covered are
  those whose code units are below 256. None of the patterns of the source has the
  \<^verbatim>\<open>u\<close> flag, so matching goes by code unit as the model does.
\<close>

definition code :: "char \<Rightarrow> nat" where
  "code c = of_char c"

definition is_digit :: "char \<Rightarrow> bool" where
  "is_digit c = (48 \<le> code c \<and> code c \<le> 57)"

definition is_upper :: "char \<Rightarrow> bool" where
  "is_upper c = (65 \<le> code c \<and> code c \<le> 90)"

definition is_lower :: "char \<Rightarrow> bool" where
  "is_lower c = (97 \<le> code c \<and> code c \<le> 122)"

text \<open>\<^verbatim>\<open>\w\<close>: the word characters that \<^verbatim>\<open>\b\<close> looks at.\<close>

definition is_word :: "char \<Rightarrow> bool" where
  "is_word c = (is_upper c \<or> is_lower c \<or> is_digit c \<or> c = CHR ''_'')"

text \<open>LineTerminator of ECMA-262 (LF and CR; U+2028 and U+2029 are beyond the model).\<close>

definition is_line_terminator :: "char \<Rightarrow> bool" where
  "is_line_terminator c = (code c = 10 \<or> code c = 13)"

text \<open>
  \<^verbatim>\<open>\s\<close> and \<^verbatim>\<open>trim\<close>: WhiteSpace and LineTerminator of ECMA-262 below 256, that
  is TAB, LF, VT, FF, CR, SP and NBSP.
\<close>

definition is_space :: "char \<Rightarrow> bool" where
  "is_space c = ((9 \<le> code c \<and> code c \<le> 13) \<or> code c = 32 \<or> code c = 160)"

text \<open>
  Canonicalize of ECMA-262 for the \<^verbatim>\<open>i\<close> flag without \<^verbatim>\<open>u\<close>: an ASCII lower-case
  letter becomes its upper-case letter. A code unit above 127 never canonicalizes to one
  below 128, and every pattern character that the source compares under the \<^verbatim>\<open>i\<close> flag
  is ASCII, so leaving the code units above 127 alone gives the same comparisons.
\<close>

definition canonicalize :: "char \<Rightarrow> char" where
  "canonicalize c = (if is_lower c then char_of (code c - 32) else c)"

section \<open>Regular expressions with the backtracking order of ECMA-262\<close>

datatype crange =
    One char
  | Rng char char
  | Digits
  | Spaces

fun in_crange :: "char \<Rightarrow> crange \<Rightarrow> bool" where
  "in_crange c (One d) = (c = d)"
| "in_crange c (Rng lo hi) = (code lo \<le> code c \<and> code c \<le> code hi)"
| "in_crange c Digits = is_digit c"
| "in_crange c Spaces = is_space c"

definition in_class :: "crange list \<Rightarrow> char \<Rightarrow> bool" where
  "in_class cs c = list_ex (in_crange c) cs"

datatype regex =
    Eps
  | Chr char
  | ChrI char
  | Cls "crange list"
  | NCls "crange list"
  | Dot
  | Bol
  | WordB
  | Seq regex regex
  | Alt regex regex
  | Star regex
  | LazyStar regex
  | Group nat regex

text \<open>
  A matcher state: the text to the left of the current position, reversed; the text
  from the current position on; the captures made so far, the latest first.
\<close>

type_synonym captures = "(nat \<times> string) list"
type_synonym mstate = "string \<times> string \<times> captures"

definition rest :: "mstate \<Rightarrow> string" where
  "rest st = fst (snd st)"

text \<open>One step over a character that satisfies \<open>p\<close>.\<close>

fun step :: "(char \<Rightarrow> bool) \<Rightarrow> mstate \<Rightarrow> mstate list" where
  "step p (l, [], g) = []"
| "step p (l, c # cs, g) = (if p c then [(c # l, cs, g)] else [])"

text \<open>\<^verbatim>\<open>\b\<close>: exactly one of the two neighbours of the position is a word character.\<close>

fun at_word_boundary :: "mstate \<Rightarrow> bool" where
  "at_word_boundary (l, r, g) =
     ((case l of [] \<Rightarrow> False | a # _ \<Rightarrow> is_word a) \<noteq> (case r of [] \<Rightarrow> False | b # _ \<Rightarrow> is_word b))"

text \<open>
  RepeatMatcher of ECMA-262 with min 0 and max infinite. The results are all the ways
  the repetition can end, in the order backtracking tries them: greedy takes one more
  iteration first and stops last. An iteration that consumes nothing is refused, as in
  ECMA-262, so the number of iterations is at most the length of the remaining text,
  which is the bound \<open>n\<close> the matcher passes.
\<close>

primrec star_iter :: "(mstate \<Rightarrow> mstate list) \<Rightarrow> nat \<Rightarrow> mstate \<Rightarrow> mstate list" where
  "star_iter f 0 st = [st]"
| "star_iter f (Suc n) st =
     concat (map (\<lambda>st'. if length (rest st') < length (rest st) then star_iter f n st' else [])
       (f st)) @ [st]"

primrec lazy_iter :: "(mstate \<Rightarrow> mstate list) \<Rightarrow> nat \<Rightarrow> mstate \<Rightarrow> mstate list" where
  "lazy_iter f 0 st = [st]"
| "lazy_iter f (Suc n) st =
     st # concat (map (\<lambda>st'. if length (rest st') < length (rest st) then lazy_iter f n st' else [])
       (f st))"

text \<open>The text consumed between a state and a later one.\<close>

definition consumed :: "mstate \<Rightarrow> mstate \<Rightarrow> string" where
  "consumed st st' = rev (take (length (fst st') - length (fst st)) (fst st'))"

primrec ms :: "regex \<Rightarrow> mstate \<Rightarrow> mstate list" where
  "ms Eps st = [st]"
| "ms (Chr c) st = step (\<lambda>x. x = c) st"
| "ms (ChrI c) st = step (\<lambda>x. canonicalize x = canonicalize c) st"
| "ms (Cls cs) st = step (in_class cs) st"
| "ms (NCls cs) st = step (\<lambda>x. \<not> in_class cs x) st"
| "ms Dot st = step (\<lambda>x. \<not> is_line_terminator x) st"
| "ms Bol st = (if fst st = [] then [st] else [])"
| "ms WordB st = (if at_word_boundary st then [st] else [])"
| "ms (Seq a b) st = concat (map (ms b) (ms a st))"
| "ms (Alt a b) st = ms a st @ ms b st"
| "ms (Star a) st = star_iter (ms a) (length (rest st)) st"
| "ms (LazyStar a) st = lazy_iter (ms a) (length (rest st)) st"
| "ms (Group n a) st =
     map (\<lambda>st'. (fst st', rest st', (n, consumed st st') # snd (snd st'))) (ms a st)"

text \<open>Pattern syntax that is sugar: a literal text, a sequence, alternatives, \<^verbatim>\<open>+\<close>, \<^verbatim>\<open>?\<close>.\<close>

definition lit :: "string \<Rightarrow> regex" where
  "lit s = foldr (\<lambda>c r. Seq (Chr c) r) s Eps"

definition lit_i :: "string \<Rightarrow> regex" where
  "lit_i s = foldr (\<lambda>c r. Seq (ChrI c) r) s Eps"

definition seqs :: "regex list \<Rightarrow> regex" where
  "seqs rs = foldr Seq rs Eps"

fun alts :: "regex list \<Rightarrow> regex" where
  "alts [] = Eps"
| "alts [r] = r"
| "alts (r # rs) = Alt r (alts rs)"

definition Plus :: "regex \<Rightarrow> regex" where
  "Plus r = Seq r (Star r)"

definition Opt :: "regex \<Rightarrow> regex" where
  "Opt r = Alt r Eps"

text \<open>
  RegExpBuiltinExec without the sticky flag: the first position, from the given one on,
  where the pattern matches, with the first match in backtracking order there. The
  result is the text left of the match (reversed) and the state at the end of the match.
\<close>

fun search :: "regex \<Rightarrow> string \<Rightarrow> string \<Rightarrow> (string \<times> mstate) option" where
  "search re l [] = (case ms re (l, [], []) of [] \<Rightarrow> None | st # _ \<Rightarrow> Some (l, st))"
| "search re l (c # cs) =
     (case ms re (l, c # cs, []) of [] \<Rightarrow> search re (c # l) cs | st # _ \<Rightarrow> Some (l, st))"

text \<open>\<^verbatim>\<open>regex.test(s)\<close> for a pattern without the \<^verbatim>\<open>g\<close> flag.\<close>

definition test :: "regex \<Rightarrow> string \<Rightarrow> bool" where
  "test re s = (search re [] s \<noteq> None)"

text \<open>The value of capture group \<open>n\<close>; \<^verbatim>\<open>undefined\<close> is \<open>None\<close>.\<close>

definition capture :: "captures \<Rightarrow> nat \<Rightarrow> string option" where
  "capture g n = map_of g n"

subsection \<open>Every match consumes a piece of the remaining text\<close>

definition extends :: "mstate \<Rightarrow> mstate \<Rightarrow> bool" where
  "extends st st' = (\<exists>w. fst st' = rev w @ fst st \<and> rest st = w @ rest st')"

lemma extends_refl: "extends st st"
  by (simp add: extends_def)

lemma extends_trans: "extends a b \<Longrightarrow> extends b c \<Longrightarrow> extends a c"
  by (auto simp: extends_def)

lemma step_extends: "st' \<in> set (step p st) \<Longrightarrow> extends st st'"
  by (cases "(p, st)" rule: step.cases) (auto simp: extends_def rest_def split: if_splits)

lemma star_iter_extends:
  assumes f: "\<And>a b. b \<in> set (f a) \<Longrightarrow> extends a b"
  shows "st' \<in> set (star_iter f n st) \<Longrightarrow> extends st st'"
proof (induction n arbitrary: st)
  case 0
  then show ?case by (simp add: extends_refl)
next
  case (Suc n)
  then show ?case
    by (auto simp: extends_refl split: if_splits intro: extends_trans f)
qed

lemma lazy_iter_extends:
  assumes f: "\<And>a b. b \<in> set (f a) \<Longrightarrow> extends a b"
  shows "st' \<in> set (lazy_iter f n st) \<Longrightarrow> extends st st'"
proof (induction n arbitrary: st)
  case 0
  then show ?case by (simp add: extends_refl)
next
  case (Suc n)
  then show ?case
    by (auto simp: extends_refl split: if_splits intro: extends_trans f)
qed

lemma ms_extends: "st' \<in> set (ms re st) \<Longrightarrow> extends st st'"
proof (induction re arbitrary: st st')
  case (Seq a b)
  from Seq.prems obtain m where "m \<in> set (ms a st)" "st' \<in> set (ms b m)" by auto
  then show ?case using Seq.IH extends_trans by blast
next
  case (Star a)
  from Star.prems have "st' \<in> set (star_iter (ms a) (length (rest st)) st)" by simp
  then show ?case by (rule star_iter_extends[rotated]) (rule Star.IH)
next
  case (LazyStar a)
  from LazyStar.prems have "st' \<in> set (lazy_iter (ms a) (length (rest st)) st)" by simp
  then show ?case by (rule lazy_iter_extends[rotated]) (rule LazyStar.IH)
next
  case (Group n a)
  from Group.prems obtain m where m: "m \<in> set (ms a st)"
    and st': "st' = (fst m, rest m, (n, consumed st m) # snd (snd m))" by auto
  from Group.IH[OF m] show ?case by (simp add: st' extends_def rest_def)
qed (auto simp: extends_refl step_extends split: if_splits)

lemma consumed_extends:
  assumes "extends st st'"
  shows "rest st = consumed st st' @ rest st'" and "fst st' = rev (consumed st st') @ fst st"
  using assms by (auto simp: extends_def consumed_def)

lemma search_extends:
  "search re l r = Some (l0, st) \<Longrightarrow>
     (\<exists>u. l0 = rev u @ l \<and> extends (l0, drop (length u) r, []) st \<and> u = take (length u) r)"
proof (induction re l r rule: search.induct)
  case (1 re l)
  then have "st \<in> set (ms re (l, [], []))" "l0 = l"
    by (auto split: list.splits)
  then show ?case using ms_extends by fastforce
next
  case (2 re l c cs)
  show ?case
  proof (cases "ms re (l, c # cs, [])")
    case Nil
    with 2 obtain u where u: "l0 = rev u @ c # l" "extends (l0, drop (length u) cs, []) st"
      "u = take (length u) cs"
      by auto
    show ?thesis
      by (rule exI[of _ "c # u"]) (use u in auto)
  next
    case (Cons a list)
    with 2 have "l0 = l" "st = a" by auto
    moreover have "extends (l, c # cs, []) a"
      using Cons ms_extends[of a re "(l, c # cs, [])"] by simp
    ultimately show ?thesis by (intro exI[of _ "[]"]) auto
  qed
qed

lemma search_shorter:
  assumes "search re l r = Some (l0, st)"
  shows "length (rest st) \<le> length r"
    and "consumed (l0, r, []) st \<noteq> [] \<Longrightarrow> length (rest st) < length r"
proof -
  from search_extends[OF assms] obtain u where u: "l0 = rev u @ l"
    "extends (l0, drop (length u) r, []) st" "u = take (length u) r" by blast
  from consumed_extends[OF u(2)]
  have d: "drop (length u) r = consumed (l0, drop (length u) r, []) st @ rest st"
    by (simp add: rest_def)
  have c: "consumed (l0, drop (length u) r, []) st = consumed (l0, r, []) st"
    by (simp add: consumed_def)
  have len: "length (drop (length u) r) = length (consumed (l0, r, []) st) + length (rest st)"
    using d c by (metis length_append)
  then show "length (rest st) \<le> length r" by simp
  assume "consumed (l0, r, []) st \<noteq> []"
  with len show "length (rest st) < length r"
    by (cases "consumed (l0, r, []) st") auto
qed

subsection \<open>Replacing\<close>

text \<open>
  \<^verbatim>\<open>s.replace(re, f)\<close> for a pattern with the \<^verbatim>\<open>g\<close> flag and a function \<open>f\<close>, which gets
  the matched text and the captures: every match from left to right, each search starting
  where the match before it ended (one character further after an empty match). The text
  between the matches is kept.
\<close>

function replace_from ::
  "regex \<Rightarrow> (string \<Rightarrow> captures \<Rightarrow> string) \<Rightarrow> string \<Rightarrow> string \<Rightarrow> string" where
  "replace_from re f l r =
     (case search re l r of
        None \<Rightarrow> r
      | Some (l0, st) \<Rightarrow>
          rev (take (length l0 - length l) l0) @
          f (consumed (l0, r, []) st) (snd (snd st)) @
          (if consumed (l0, r, []) st = []
           then (case rest st of [] \<Rightarrow> [] | c # cs \<Rightarrow> c # replace_from re f (c # fst st) cs)
           else replace_from re f (fst st) (rest st)))"
  by pat_completeness auto
termination
proof (relation "measure (\<lambda>(re, f, l, r). length r)", goal_cases)
  case 1
  then show ?case by simp
next
  case (2 re f l r x2 x y c cs)
  then show ?case using search_shorter(1)[of re l r x y] by simp
next
  case (3 re f l r x2 x y)
  then show ?case using search_shorter(2)[of re l r x y] by simp
qed

declare replace_from.simps [simp del]

definition replaceAll :: "regex \<Rightarrow> (string \<Rightarrow> captures \<Rightarrow> string) \<Rightarrow> string \<Rightarrow> string" where
  "replaceAll re f s = replace_from re f [] s"

text \<open>
  GetSubstitution of ECMA-262 for a replacement text: \<^verbatim>\<open>$$\<close>, \<^verbatim>\<open>$&\<close>, \<^verbatim>\<open>$`\<close>, \<^verbatim>\<open>$'\<close>, \<^verbatim>\<open>$n\<close>
  and \<^verbatim>\<open>$nn\<close>. The patterns of the source have no named groups, so \<^verbatim>\<open>$<\<close> stands for
  itself. \<open>caps\<close> holds the capture groups 1, 2, ... in order.
\<close>

definition digit_value :: "char \<Rightarrow> nat" where
  "digit_value c = code c - 48"

definition capture_text :: "string option \<Rightarrow> string" where
  "capture_text c = (case c of None \<Rightarrow> [] | Some s \<Rightarrow> s)"

fun getSubstitution ::
  "string \<Rightarrow> string \<Rightarrow> string \<Rightarrow> string option list \<Rightarrow> string \<Rightarrow> string" where
  "getSubstitution matched pre post caps [] = []"
| "getSubstitution matched pre post caps [c] = [c]"
| "getSubstitution matched pre post caps (c # d # t) =
     (if c \<noteq> CHR ''$'' then c # getSubstitution matched pre post caps (d # t)
      else if d = CHR ''$'' then CHR ''$'' # getSubstitution matched pre post caps t
      else if d = CHR ''&'' then matched @ getSubstitution matched pre post caps t
      else if d = CHR ''`'' then pre @ getSubstitution matched pre post caps t
      else if d = CHR 0x27 then post @ getSubstitution matched pre post caps t
      else if is_digit d then
        (case t of
           [] \<Rightarrow>
             (if 1 \<le> digit_value d \<and> digit_value d \<le> length caps
              then capture_text (caps ! (digit_value d - 1)) else [c, d])
         | e # t' \<Rightarrow>
             (if is_digit e \<and> 10 * digit_value d + digit_value e \<le> length caps
              then (if 1 \<le> 10 * digit_value d + digit_value e
                    then capture_text (caps ! (10 * digit_value d + digit_value e - 1))
                    else [c, d, e]) @ getSubstitution matched pre post caps t'
              else (if 1 \<le> digit_value d \<and> digit_value d \<le> length caps
                    then capture_text (caps ! (digit_value d - 1)) else [c, d]) @
                   getSubstitution matched pre post caps t))
      else c # getSubstitution matched pre post caps (d # t))"

text \<open>
  \<^verbatim>\<open>s.replace(re, template)\<close> for a pattern without the \<^verbatim>\<open>g\<close> flag, with \<open>ngroups\<close> capture
  groups: the first match only.
\<close>

definition replace_first :: "regex \<Rightarrow> nat \<Rightarrow> string \<Rightarrow> string \<Rightarrow> string" where
  "replace_first re ngroups template s =
     (case search re [] s of
        None \<Rightarrow> s
      | Some (l0, st) \<Rightarrow>
          rev l0 @
          getSubstitution (consumed (l0, s, []) st) (rev l0) (rest st)
            (map (capture (snd (snd st))) [1..<Suc ngroups]) template @
          rest st)"

subsection \<open>Other string operations of the source\<close>

text \<open>\<^verbatim>\<open>s.split('\n')[0]\<close>\<close>

definition first_line :: "string \<Rightarrow> string" where
  "first_line s = takeWhile (\<lambda>c. c \<noteq> CHR 0x0A) s"

text \<open>\<^verbatim>\<open>s.trim()\<close>\<close>

definition trim :: "string \<Rightarrow> string" where
  "trim s = rev (dropWhile is_space (rev (dropWhile is_space s)))"

text \<open>\<^verbatim>\<open>lines.join(sep)\<close>\<close>

fun join :: "string \<Rightarrow> string list \<Rightarrow> string" where
  "join sep [] = []"
| "join sep [x] = x"
| "join sep (x # xs) = x @ sep @ join sep xs"

text \<open>\<^verbatim>\<open>m.indexOf(key)\<close>, which is -1 when \<open>key\<close> does not occur in \<open>m\<close>.\<close>

fun indexOf :: "string \<Rightarrow> string \<Rightarrow> int" where
  "indexOf [] key = (if key = [] then 0 else - 1)"
| "indexOf (c # cs) key =
     (if take (length key) (c # cs) = key then 0
      else (let i = indexOf cs key in if i < 0 then - 1 else i + 1))"

text \<open>\<^verbatim>\<open>s.slice(0, e)\<close>: a negative end counts from the end of the text.\<close>

definition slice0 :: "string \<Rightarrow> int \<Rightarrow> string" where
  "slice0 s e = (if e < 0 then take (nat (int (length s) + e)) s else take (nat e) s)"

section \<open>The data of \<^verbatim>\<open>changelog-notes/default.ts\<close>\<close>

text \<open>
  Notes are objects: \<^verbatim>\<open>replaceIssueLink\<close> assigns to \<^verbatim>\<open>note.text\<close>. They live in a store, and
  a commit and the entry made from it hold references into it. Nothing else that
  \<^verbatim>\<open>buildNotes\<close> can reach from its arguments is assigned to in the source, so commits,
  raw commits and options are values.
\<close>

record Note =
  title :: string
  "text" :: string

type_synonym ref = nat
type_synonym heap = "ref \<Rightarrow> Note"

subsection \<open>\<^verbatim>\<open>htmlEscape\<close>\<close>

text \<open>\<^verbatim>\<open>/``[^`].*[^`]``|`[^`]*`|<|>/g\<close>\<close>

definition htmlEscape_re :: regex where
  "htmlEscape_re = alts
     [seqs [lit ''``'', NCls [One CHR ''`''], Star Dot, NCls [One CHR ''`''], lit ''``''],
      seqs [Chr CHR ''`'', Star (NCls [One CHR ''`'']), Chr CHR ''`''],
      Chr CHR ''<'',
      Chr CHR ''>'']"

definition htmlEscape :: "string \<Rightarrow> string" where
  "htmlEscape msg =
     replaceAll htmlEscape_re
       (\<lambda>match g. if length match > 1 then match
                   else if match = ''<'' then ''&lt;'' else ''&gt;'')
       msg"

subsection \<open>\<^verbatim>\<open>replaceIssueLink\<close>\<close>

text \<open>\<^verbatim>\<open>/\(#(\d+)\)/\<close>\<close>

definition issueLink_re :: regex where
  "issueLink_re = seqs [Chr CHR ''('', Chr CHR ''#'', Group 1 (Plus (Cls [Digits])), Chr CHR '')'']"

definition issueLink_template :: "string \<Rightarrow> string \<Rightarrow> string \<Rightarrow> string" where
  "issueLink_template host owner repo =
     ''([#$1]('' @ host @ ''/'' @ owner @ ''/'' @ repo @ ''/issues/$1))''"

text \<open>The note is changed in the store, and the same reference is returned.\<close>

definition replaceIssueLink :: "heap \<Rightarrow> ref \<Rightarrow> string \<Rightarrow> string \<Rightarrow> string \<Rightarrow> ref \<times> heap" where
  "replaceIssueLink h note host owner repo =
     (note,
      h(note := (h note)\<lparr>text :=
          replace_first issueLink_re 1 (issueLink_template host owner repo) (text (h note))\<rparr>))"

text \<open>
  The issue references of a commit are passed through untouched, and no field of one is
  read: a reference is its text.
\<close>

datatype Reference = Reference string

text \<open>The \<^verbatim>\<open>context\<close> object of \<^verbatim>\<open>buildNotes\<close>.\<close>

record Context =
  host :: string
  owner :: string
  repository :: string
  version :: string
  previousTag :: "string option"
  currentTag :: string
  linkCompare :: bool

text \<open>An element of \<^verbatim>\<open>changelogCommits\<close>.\<close>

record Entry =
  body :: string
  subject :: string
  type :: "string option"
  scope :: "string option"
  "notes" :: "ref list"
  references :: "Reference list"
  mentions :: "string list"
  merge :: "unit option"
  revert :: "unit option"
  header :: string
  footer :: string
  hash :: string

record ChangelogSection =
  type :: string
  "section" :: string
  hidden :: "bool option"

text \<open>A commit of \<^verbatim>\<open>options.commits\<close>; its \<^verbatim>\<open>files\<close> and \<^verbatim>\<open>pullRequest\<close> are never read.\<close>

record Commit =
  raw_sha :: string
  raw_message :: string

record ConventionalCommit =
  sha :: string
  message :: string
  bareMessage :: string
  type :: "string option"
  scope :: "string option"
  "notes" :: "ref list"
  references :: "Reference list"
  breaking :: bool

record BuildNotesOptions =
  host :: "string option"
  owner :: string
  repository :: string
  version :: string
  previousTag :: "string option"
  currentTag :: string
  changelogSections :: "ChangelogSection list option"
  commits :: "Commit list option"
  trackerList :: "string list option"
  trackerUrl :: "string option"

record DefaultChangelogNotesOptions =
  commitPartial :: "string option"
  headerPartial :: "string option"
  mainTemplate :: "string option"

text \<open>
  \<^verbatim>\<open>conventionalChangelogWriter.parseArray\<close> with the \<^verbatim>\<open>writerOpts\<close> of the preset that
  \<^verbatim>\<open>presetFactory(config)\<close> returns, after the three templates of \<^verbatim>\<open>this\<close> have replaced
  the preset's where they are set. Both packages are outside the repository; the writer is
  a parameter of \<open>buildNotes\<close>. It gets \<^verbatim>\<open>this\<close>, \<^verbatim>\<open>config.types\<close>, the store, the entries and
  the context.
\<close>

type_synonym writer =
  "DefaultChangelogNotesOptions \<Rightarrow> ChangelogSection list option \<Rightarrow> heap \<Rightarrow> Entry list \<Rightarrow>
   Context \<Rightarrow> string"

section \<open>The functions of \<^verbatim>\<open>changelog-notes/default.ts\<close>\<close>

definition DEFAULT_HOST :: string where
  "DEFAULT_HOST = ''https://github.com''"

text \<open>A text or \<^verbatim>\<open>undefined\<close> is truthy when it is a text that is not empty.\<close>

definition truthy :: "string option \<Rightarrow> bool" where
  "truthy v = (case v of None \<Rightarrow> False | Some s \<Rightarrow> s \<noteq> [])"

text \<open>\<^verbatim>\<open>a || b\<close>\<close>

definition or_else :: "string option \<Rightarrow> string \<Rightarrow> string" where
  "or_else a b = (case a of None \<Rightarrow> b | Some s \<Rightarrow> if s \<noteq> [] then s else b)"

definition buildContext :: "BuildNotesOptions \<Rightarrow> Context" where
  "buildContext options =
     \<lparr> Context.host = or_else (host options) DEFAULT_HOST,
       Context.owner = owner options,
       Context.repository = repository options,
       Context.version = version options,
       Context.previousTag = previousTag options,
       Context.currentTag = currentTag options,
       linkCompare = truthy (previousTag options) \<rparr>"

subsection \<open>The patterns of \<^verbatim>\<open>buildNotes\<close>\<close>

definition upper :: regex where
  "upper = Cls [Rng CHR ''A'' CHR ''Z'']"

definition upper_or_digit :: regex where
  "upper_or_digit = Cls [Rng CHR ''A'' CHR ''Z'', Rng CHR ''0'' CHR ''9'']"

definition digit :: regex where
  "digit = Cls [Digits]"

text \<open>\<^verbatim>\<open>[A-Z][A-Z0-9]+-\d+\<close>\<close>

definition anyKey :: regex where
  "anyKey = seqs [upper, Plus upper_or_digit, Chr CHR ''-'', Plus digit]"

text \<open>\<^verbatim>\<open>/^(\[[A-Z][A-Z0-9]+-\d+\]|[A-Z][A-Z0-9]+-\d+):\s/\<close>\<close>

definition jiraHeader :: regex where
  "jiraHeader =
     seqs [Bol,
           Group 1 (Alt (seqs [Chr CHR ''['', anyKey, Chr CHR '']'']) anyKey),
           Chr CHR '':'', Cls [Spaces]]"

text \<open>
  \<^verbatim>\<open>options.trackerList && options.trackerList.length > 0 ? options.trackerList : undefined\<close>
\<close>

definition trackerPrefixes :: "BuildNotesOptions \<Rightarrow> string list option" where
  "trackerPrefixes options =
     (case trackerList options of
        None \<Rightarrow> None
      | Some ps \<Rightarrow> if length ps > 0 then Some ps else None)"

text \<open>
  With prefixes, the pattern is built from a text:
  \<^verbatim>\<open>(?:^|[^A-Z0-9])((?:P1|P2|...)-\d+)\<close> with the \<^verbatim>\<open>g\<close> flag, where each \<^verbatim>\<open>Pi\<close> is a prefix
  with a backslash put before each of \<^verbatim>\<open>- / \ ^ $ * + ? . ( ) | [ ] { }\<close>. These are all the
  syntax characters of a pattern, so each \<^verbatim>\<open>Pi\<close> is read back as the literal text of the
  prefix. Without prefixes the pattern is \<^verbatim>\<open>/(?:^|[^A-Z0-9])(([A-Z][A-Z0-9]+-\d+))/g\<close>.
\<close>

definition issueKeyRegex :: "string list option \<Rightarrow> regex" where
  "issueKeyRegex prefixes =
     (case prefixes of
        Some ps \<Rightarrow>
          seqs [Alt Bol (NCls [Rng CHR ''A'' CHR ''Z'', Rng CHR ''0'' CHR ''9'']),
                Group 1 (seqs [alts (map lit ps), Chr CHR ''-'', Plus digit])]
      | None \<Rightarrow>
          seqs [Alt Bol (NCls [Rng CHR ''A'' CHR ''Z'', Rng CHR ''0'' CHR ''9'']),
                Group 1 (Group 2 anyKey)])"

text \<open>
  The function that replaces a match \<open>m\<close> whose first group is \<open>key\<close>. The group
  always takes part in a match; an \<^verbatim>\<open>undefined\<close> one would be written out as that word.
\<close>

definition linkKey :: "string \<Rightarrow> string \<Rightarrow> captures \<Rightarrow> string" where
  "linkKey url m g =
     (let key = (case capture g 1 of None \<Rightarrow> ''undefined'' | Some k \<Rightarrow> k);
          prefix = slice0 m (indexOf m key);
          link = ''['' @ key @ '']('' @ url @ key @ '')''
      in prefix @ link)"

text \<open>
  \<^verbatim>\<open>if (trackerUrl) { subject = subject.replace(issueKeyRegex, ...) }\<close>, which the source has
  twice, for the commits and for the raw commits.
\<close>

definition linkIssueKeys :: "string list option \<Rightarrow> string option \<Rightarrow> string \<Rightarrow> string" where
  "linkIssueKeys prefixes url s =
     (case url of
        None \<Rightarrow> s
      | Some u \<Rightarrow> if u \<noteq> [] then replaceAll (issueKeyRegex prefixes) (linkKey u) s else s)"

text \<open>\<^verbatim>\<open>/^(\[[A-Z][A-Z0-9]+-\d+\]|[A-Z][A-Z0-9]+-\d+)\b/\<close>\<close>

definition rawIssueHeader :: regex where
  "rawIssueHeader =
     seqs [Bol, Group 1 (Alt (seqs [Chr CHR ''['', anyKey, Chr CHR '']'']) anyKey), WordB]"

text \<open>\<^verbatim>\<open>/^(feat|fix|docs|style|refactor|perf|test|build|ci|chore|revert)(\(.*?\))?:\s/\<close>\<close>

definition conventionalHeader :: regex where
  "conventionalHeader =
     seqs [Bol,
           Group 1 (alts (map lit [''feat'', ''fix'', ''docs'', ''style'', ''refactor'', ''perf'',
                                   ''test'', ''build'', ''ci'', ''chore'', ''revert''])),
           Opt (Group 2 (seqs [Chr CHR ''('', LazyStar Dot, Chr CHR '')''])),
           Chr CHR '':'', Cls [Spaces]]"

text \<open>\<^verbatim>\<open>/^Merge\b/\<close>\<close>

definition mergeHeader :: regex where
  "mergeHeader = seqs [Bol, lit ''Merge'', WordB]"

text \<open>\<^verbatim>\<open>/release[- ]please|^chore\(main\): release/i\<close>\<close>

definition skipRelease :: regex where
  "skipRelease =
     Alt (seqs [lit_i ''release'', Cls [One CHR ''-'', One CHR '' ''], lit_i ''please''])
         (seqs [Bol, lit_i ''chore(main): release''])"

subsection \<open>\<^verbatim>\<open>buildNotes\<close>\<close>

text \<open>A \<^verbatim>\<open>map\<close> whose function changes a state.\<close>

fun map_state :: "('s \<Rightarrow> 'a \<Rightarrow> 'b \<times> 's) \<Rightarrow> 's \<Rightarrow> 'a list \<Rightarrow> 'b list \<times> 's" where
  "map_state f s [] = ([], s)"
| "map_state f s (x # xs) =
     (case f s x of (y, s') \<Rightarrow> (case map_state f s' xs of (ys, s'') \<Rightarrow> (y # ys, s'')))"

text \<open>
  The function mapped over \<^verbatim>\<open>commits\<close>. Its state is \<^verbatim>\<open>seenShas\<close> and the store of the
  notes.
\<close>

definition changelogCommit ::
  "Context \<Rightarrow> string list option \<Rightarrow> string option \<Rightarrow> string set \<times> heap \<Rightarrow> ConventionalCommit \<Rightarrow>
   Entry \<times> (string set \<times> heap)" where
  "changelogCommit context prefixes url s commit =
     (let seenShas = (if sha commit \<noteq> [] then insert (sha commit) (fst s) else fst s);
          kept = filter (\<lambda>note. title (snd s note) = ''BREAKING CHANGE'') (notes commit);
          (notes', h') =
            map_state (\<lambda>h note. replaceIssueLink h note (Context.host context)
                                   (Context.owner context) (Context.repository context))
              (snd s) kept;
          headerLine = message commit;
          isJiraHeader = test jiraHeader headerLine;
          subject' = linkIssueKeys prefixes url
                       (if isJiraHeader then htmlEscape headerLine
                        else htmlEscape (bareMessage commit));
          type' = (if isJiraHeader then Some ''others'' else type commit)
      in (\<lparr> body = [],
            subject = subject',
            Entry.type = type',
            Entry.scope = scope commit,
            Entry.notes = notes',
            Entry.references = references commit,
            mentions = [],
            merge = None,
            revert = None,
            header = message commit,
            footer = join [CHR 0x0A]
              (map (\<lambda>note. ''Release-As: '' @ text (h' note))
                 (filter (\<lambda>note. title (h' note) = ''RELEASE AS'') (notes commit))),
            hash = sha commit \<rparr>,
          (seenShas, h')))"

text \<open>The entry pushed for a raw commit whose first line is \<open>msg\<close>.\<close>

definition rawEntry :: "string list option \<Rightarrow> string option \<Rightarrow> Commit \<Rightarrow> string \<Rightarrow> Entry" where
  "rawEntry prefixes url raw msg =
     \<lparr> body = [],
       subject = linkIssueKeys prefixes url (htmlEscape msg),
       Entry.type = Some ''others'',
       Entry.scope = None,
       Entry.notes = [],
       Entry.references = [],
       mentions = [],
       merge = None,
       revert = None,
       header = msg,
       footer = [],
       hash = raw_sha raw \<rparr>"

text \<open>The loop over \<^verbatim>\<open>options.commits\<close>, which pushes onto \<^verbatim>\<open>changelogCommits\<close>.\<close>

fun recoverRaw ::
  "string set \<Rightarrow> string list option \<Rightarrow> string option \<Rightarrow> Commit list \<Rightarrow> Entry list \<Rightarrow> Entry list" where
  "recoverRaw seenShas prefixes url [] changelogCommits = changelogCommits"
| "recoverRaw seenShas prefixes url (raw # raws) changelogCommits =
     (if raw_sha raw \<in> seenShas then recoverRaw seenShas prefixes url raws changelogCommits
      else
        (let msg = first_line (raw_message raw) in
         if \<not> test rawIssueHeader msg \<and>
            (test conventionalHeader msg \<or> test mergeHeader msg \<or> test skipRelease msg)
         then recoverRaw seenShas prefixes url raws changelogCommits
         else recoverRaw seenShas prefixes url raws
                (changelogCommits @ [rawEntry prefixes url raw msg])))"

text \<open>A line of the Others block.\<close>

definition othersLine :: "Context \<Rightarrow> Entry \<Rightarrow> string" where
  "othersLine context c =
     (let shortSha = hash c;
          sha7 = (if shortSha \<noteq> [] then take 7 shortSha else []);
          link = (if sha7 \<noteq> []
                  then ''(['' @ sha7 @ '']('' @ Context.host context @ ''/'' @
                       Context.owner context @ ''/'' @ Context.repository context @
                       ''/commit/'' @ shortSha @ ''))''
                  else [])
      in trim (''* '' @ subject c @ '' '' @ link))"

text \<open>
  \<^verbatim>\<open>buildNotes\<close> up to the call of the writer (lines 55 to 159): \<^verbatim>\<open>changelogCommits\<close>
  after the loop over the raw commits, and the store. \<open>cs\<close> stands for the argument
  \<^verbatim>\<open>commits\<close>.
\<close>

definition changelogCommits ::
  "heap \<Rightarrow> ConventionalCommit list \<Rightarrow> BuildNotesOptions \<Rightarrow> Entry list \<times> heap" where
  "changelogCommits h cs options =
     (let context = buildContext options;
          prefixes = trackerPrefixes options;
          url = trackerUrl options;
          (mapped, (seenShas, h')) =
            map_state (changelogCommit context prefixes url) ({}, h) cs
      in (case commits options of
            None \<Rightarrow> mapped
          | Some raws \<Rightarrow> recoverRaw seenShas prefixes url raws mapped,
          h'))"

text \<open>
  The end of \<^verbatim>\<open>buildNotes\<close> (lines 178 to 198), from the trimmed text of the writer. The
  source also computes \<^verbatim>\<open>hasSectionsOrBullets\<close> from that text and never reads it.
\<close>

definition appendOthers :: "Context \<Rightarrow> Entry list \<Rightarrow> string \<Rightarrow> string" where
  "appendOthers context entries rendered =
     (let others = filter (\<lambda>c. Entry.type c = Some ''others'') entries
      in if length others > 0
         then
           (let lines = (if length rendered > 0 then [rendered] else []);
                lines = (if length lines > 0 then lines @ [[]] else lines);
                lines = lines @ [''### Others''];
                lines = lines @ [[]];
                lines = lines @ map (othersLine context) others
            in join [CHR 0x0A] lines)
         else rendered)"

text \<open>\<^verbatim>\<open>buildNotes\<close>: the text it returns, and the store as it leaves it.\<close>

definition buildNotes ::
  "writer \<Rightarrow> DefaultChangelogNotesOptions \<Rightarrow> heap \<Rightarrow> ConventionalCommit list \<Rightarrow> BuildNotesOptions \<Rightarrow>
   string \<times> heap" where
  "buildNotes parseArray this h cs options =
     (let context = buildContext options;
          config_types = changelogSections options;
          (entries, h') = changelogCommits h cs options;
          rendered = trim (parseArray this config_types h' entries context)
      in (appendOthers context entries rendered, h'))"


section \<open>The same patterns in the sibling variants\<close>

text \<open>
  The repository holds further variants of \<^verbatim>\<open>buildNotes\<close>. Two of their patterns are embedded
  here, to be compared with the ones above.

  \<^verbatim>\<open>src/unnamed/part_002\<close>, lines 80-83: the header pattern is assembled from the configured
  prefixes (here the list that the variant obtains by splitting its option at the commas),
  \<^verbatim>\<open>^(\[P-\d+\]|P-\d+):\s\<close> where \<^verbatim>\<open>P\<close> is \<^verbatim>\<open>(?:P1|P2|...)\<close> with the prefixes escaped as above,
  or \<^verbatim>\<open>[A-Z][A-Z0-9]+\<close> when there is no prefix.
\<close>

definition prefixClass_part_002 :: "string list option \<Rightarrow> regex" where
  "prefixClass_part_002 prefixes =
     (case prefixes of
        Some ps \<Rightarrow> if length ps > 0 then alts (map lit ps) else seqs [upper, Plus upper_or_digit]
      | None \<Rightarrow> seqs [upper, Plus upper_or_digit])"

definition jiraHeader_part_002 :: "string list option \<Rightarrow> regex" where
  "jiraHeader_part_002 prefixes =
     (let p = seqs [prefixClass_part_002 prefixes, Chr CHR ''-'', Plus digit]
      in seqs [Bol, Group 1 (Alt (seqs [Chr CHR ''['', p, Chr CHR '']'']) p),
               Chr CHR '':'', Cls [Spaces]])"

text \<open>
  \<^verbatim>\<open>src/unnamed/part_001\<close>, line 106: \<^verbatim>\<open>/[A-Za-z]/\<close>, tested on the first line of every raw
  commit, which is skipped when the test fails
  (\<^verbatim>\<open>if (!hasLetters.test(firstLine)) continue;\<close>, line 110).
\<close>

definition hasLetters_part_001 :: regex where
  "hasLetters_part_001 = Cls [Rng CHR ''A'' CHR ''Z'', Rng CHR ''a'' CHR ''z'']"
section \<open>Notions for stating the properties\<close>

text \<open>
  The texts a pattern can consume, without the order in which the matcher tries them.
  \<^verbatim>\<open>^\<close> and \<^verbatim>\<open>\b\<close> consume nothing and are not checked here.
\<close>

inductive matches :: "regex \<Rightarrow> string \<Rightarrow> bool" where
  m_Eps: "matches Eps []"
| m_Chr: "matches (Chr c) [c]"
| m_ChrI: "canonicalize x = canonicalize c \<Longrightarrow> matches (ChrI c) [x]"
| m_Cls: "in_class cs c \<Longrightarrow> matches (Cls cs) [c]"
| m_NCls: "\<not> in_class cs c \<Longrightarrow> matches (NCls cs) [c]"
| m_Dot: "\<not> is_line_terminator c \<Longrightarrow> matches Dot [c]"
| m_Bol: "matches Bol []"
| m_WordB: "matches WordB []"
| m_Seq: "matches a u \<Longrightarrow> matches b v \<Longrightarrow> matches (Seq a b) (u @ v)"
| m_Alt1: "matches a u \<Longrightarrow> matches (Alt a b) u"
| m_Alt2: "matches b u \<Longrightarrow> matches (Alt a b) u"
| m_Star0: "matches (Star a) []"
| m_Star: "matches a u \<Longrightarrow> matches (Star a) v \<Longrightarrow> matches (Star a) (u @ v)"
| m_Lazy0: "matches (LazyStar a) []"
| m_Lazy: "matches a u \<Longrightarrow> matches (LazyStar a) v \<Longrightarrow> matches (LazyStar a) (u @ v)"
| m_Group: "matches a u \<Longrightarrow> matches (Group n a) u"

inductive_cases matches_EpsE: "matches Eps w"
inductive_cases matches_ChrE: "matches (Chr c) w"
inductive_cases matches_ClsE: "matches (Cls cs) w"
inductive_cases matches_NClsE: "matches (NCls cs) w"
inductive_cases matches_SeqE: "matches (Seq a b) w"
inductive_cases matches_AltE: "matches (Alt a b) w"
inductive_cases matches_GroupE: "matches (Group n a) w"

text \<open>The state \<open>st'\<close> is the state \<open>st\<close> after consuming \<open>w\<close>.\<close>

definition reaches :: "mstate \<Rightarrow> string \<Rightarrow> mstate \<Rightarrow> bool" where
  "reaches st w st' = (fst st' = rev w @ fst st \<and> rest st = w @ rest st')"

text \<open>Patterns without \<^verbatim>\<open>^\<close> and \<^verbatim>\<open>\b\<close>: what they match does not depend on the context.\<close>

fun plain :: "regex \<Rightarrow> bool" where
  "plain Bol = False"
| "plain WordB = False"
| "plain (Seq a b) = (plain a \<and> plain b)"
| "plain (Alt a b) = (plain a \<and> plain b)"
| "plain (Star a) = plain a"
| "plain (LazyStar a) = plain a"
| "plain (Group n a) = plain a"
| "plain _ = True"

text \<open>
  A tracker key in the words of the specification: one of the configured prefixes, or
  an upper-case letter and at least one more upper-case letter or digit when none is
  configured, then a dash and digits.
\<close>

definition is_key :: "string list option \<Rightarrow> string \<Rightarrow> bool" where
  "is_key prefixes key =
     (case prefixes of
        Some ps \<Rightarrow>
          (\<exists>p ds. key = p @ ''-'' @ ds \<and> (p \<in> set ps \<or> ps = [] \<and> p = []) \<and>
                  ds \<noteq> [] \<and> list_all is_digit ds)
      | None \<Rightarrow>
          (\<exists>a bs ds. key = a # bs @ ''-'' @ ds \<and> is_upper a \<and> bs \<noteq> [] \<and>
                  list_all (\<lambda>c. is_upper c \<or> is_digit c) bs \<and> ds \<noteq> [] \<and> list_all is_digit ds))"

text \<open>The part of \<open>issueKeyRegex\<close> that is its group 1.\<close>

definition keyPattern :: "string list option \<Rightarrow> regex" where
  "keyPattern prefixes =
     (case prefixes of
        Some ps \<Rightarrow> seqs [alts (map lit ps), Chr CHR ''-'', Plus digit]
      | None \<Rightarrow> Group 2 anyKey)"

text \<open>The text of a note after \<^verbatim>\<open>replaceIssueLink\<close>, and the store after it.\<close>

definition rewritten :: "string \<Rightarrow> string \<Rightarrow> string \<Rightarrow> string \<Rightarrow> string" where
  "rewritten hst own repo t = replace_first issueLink_re 1 (issueLink_template hst own repo) t"

definition relink :: "string \<Rightarrow> string \<Rightarrow> string \<Rightarrow> heap \<Rightarrow> ref \<Rightarrow> heap" where
  "relink hst own repo h n = h(n := (h n)\<lparr>text := rewritten hst own repo (text (h n))\<rparr>)"

text \<open>The notes of a commit that its entry keeps.\<close>

definition kept :: "heap \<Rightarrow> ConventionalCommit \<Rightarrow> ref list" where
  "kept h c = filter (\<lambda>n. title (h n) = ''BREAKING CHANGE'') (notes c)"

text \<open>The text has \<^verbatim>\<open>(#\<close>, the digits \<open>ds\<close> and \<^verbatim>\<open>)\<close> at position \<open>i\<close>.\<close>

definition issue_ref_at :: "string \<Rightarrow> nat \<Rightarrow> string \<Rightarrow> bool" where
  "issue_ref_at t i ds =
     (ds \<noteq> [] \<and> list_all is_digit ds \<and> (\<exists>x. drop i t = ''(#'' @ ds @ '')'' @ x) \<and> i \<le> length t)"

text \<open>
  What the specification says of a note text \<open>t\<close> and its rewriting \<open>t'\<close>: without a
  reference the text stays; otherwise the first reference becomes a link and what follows
  it stays.
\<close>

definition first_issue_linked :: "string \<Rightarrow> string \<Rightarrow> string \<Rightarrow> string \<Rightarrow> string \<Rightarrow> bool" where
  "first_issue_linked hst own repo t t' =
     ((\<forall>i ds. \<not> issue_ref_at t i ds) \<and> t' = t \<or>
      (\<exists>i ds. issue_ref_at t i ds \<and> (\<forall>j ds'. j < i \<longrightarrow> \<not> issue_ref_at t j ds') \<and>
         t' = take i t @
              ''([#'' @ ds @ '']('' @ hst @ ''/'' @ own @ ''/'' @ repo @ ''/issues/'' @ ds @ ''))'' @
              drop (i + length ds + 3) t))"

text \<open>The function that \<open>htmlEscape\<close> replaces a match by.\<close>

definition escape_match :: "string \<Rightarrow> captures \<Rightarrow> string" where
  "escape_match = (\<lambda>match g. if length match > 1 then match
                   else if match = ''<'' then ''&lt;'' else ''&gt;'')"

text \<open>No backtick is directly followed by another one.\<close>

fun no_double_backtick :: "string \<Rightarrow> bool" where
  "no_double_backtick (a # b # t) = (\<not> (a = CHR ''`'' \<and> b = CHR ''`'') \<and> no_double_backtick (b # t))"
| "no_double_backtick t = True"

text \<open>
  Escaping in the words of the specification, for code spans in single backticks: \<^verbatim>\<open><\<close>
  and \<^verbatim>\<open>>\<close> are escaped, a backtick with a later backtick opens a span that is kept up to
  the next backtick, and every other character is kept.
\<close>

function escape_simple :: "string \<Rightarrow> string" where
  "escape_simple [] = []"
| "escape_simple (c # cs) =
     (if c = CHR ''<'' then ''&lt;'' @ escape_simple cs
      else if c = CHR ''>'' then ''&gt;'' @ escape_simple cs
      else if c = CHR ''`'' \<and> CHR ''`'' \<in> set cs
           then c # takeWhile (\<lambda>x. x \<noteq> CHR ''`'') cs @
                CHR ''`'' # escape_simple (tl (dropWhile (\<lambda>x. x \<noteq> CHR ''`'') cs))
      else c # escape_simple cs)"
  by pat_completeness auto
termination
proof (relation "measure length", goal_cases)
  case 1
  then show ?case by simp
next
  case (2 c cs)
  then show ?case by simp
next
  case (3 c cs)
  then show ?case by simp
next
  case (4 c cs)
  have "length (dropWhile (\<lambda>x. x \<noteq> CHR ''`'') cs) \<le> length cs" by (rule length_dropWhile_le)
  then show ?case by simp
next
  case (5 c cs)
  then show ?case by simp
qed







section \<open>Inputs for the examples\<close>

text \<open>Options with nothing optional set, and a template-free \<^verbatim>\<open>this\<close>.\<close>

definition plain_options :: BuildNotesOptions where
  "plain_options =
     \<lparr> host = None, owner = ''o'', repository = ''r'', version = ''1.0.0'', previousTag = None,
       currentTag = ''v1.0.0'', changelogSections = None, commits = None, trackerList = None,
       trackerUrl = None \<rparr>"

definition plain_this :: DefaultChangelogNotesOptions where
  "plain_this = \<lparr> commitPartial = None, headerPartial = None, mainTemplate = None \<rparr>"

text \<open>A writer that renders nothing, as when no entry has a type with a section.\<close>

definition silent_writer :: writer where
  "silent_writer this types h entries context = []"

text \<open>
  A store with a breaking-change note with two references, a release-as note and a
  breaking-change note without a reference, and a commit that holds the three.
\<close>

definition note_heap :: heap where
  "note_heap =
     (\<lambda>n. if n = 0 then \<lparr>title = ''BREAKING CHANGE'', text = ''drop v1 (#42), see (#7)''\<rparr>
          else if n = 1 then \<lparr>title = ''RELEASE AS'', text = ''2.0.0''\<rparr>
          else \<lparr>title = ''BREAKING CHANGE'', text = ''no reference''\<rparr>)"

definition breaking_commit :: ConventionalCommit where
  "breaking_commit =
     \<lparr> sha = ''abc1234def'', message = ''feat!: drop v1'', bareMessage = ''drop v1'',
       type = Some ''feat'', scope = None, notes = [0, 1, 2], references = [], breaking = True \<rparr>"




section \<open>Properties of the matcher\<close>

lemma star_iter_fuel:
  "length (rest st) \<le> n \<Longrightarrow> length (rest st) \<le> m \<Longrightarrow> star_iter f n st = star_iter f m st"
proof (induction n arbitrary: m st)
  case 0
  then show ?case by (cases m) simp_all
next
  case (Suc n)
  show ?case
  proof (cases m)
    case 0
    with Suc.prems show ?thesis by simp
  next
    case (Suc k)
    have "(\<lambda>st'. if length (rest st') < length (rest st) then star_iter f n st' else []) =
          (\<lambda>st'. if length (rest st') < length (rest st) then star_iter f k st' else [])"
    proof
      fix st'
      show "(if length (rest st') < length (rest st) then star_iter f n st' else []) =
            (if length (rest st') < length (rest st) then star_iter f k st' else [])"
        using Suc.IH[of st' k] Suc.prems \<open>m = Suc k\<close> by auto
    qed
    then show ?thesis using \<open>m = Suc k\<close> by simp
  qed
qed

lemma lazy_iter_fuel:
  "length (rest st) \<le> n \<Longrightarrow> length (rest st) \<le> m \<Longrightarrow> lazy_iter f n st = lazy_iter f m st"
proof (induction n arbitrary: m st)
  case 0
  then show ?case by (cases m) simp_all
next
  case (Suc n)
  show ?case
  proof (cases m)
    case 0
    with Suc.prems show ?thesis by simp
  next
    case (Suc k)
    have "(\<lambda>st'. if length (rest st') < length (rest st) then lazy_iter f n st' else []) =
          (\<lambda>st'. if length (rest st') < length (rest st) then lazy_iter f k st' else [])"
    proof
      fix st'
      show "(if length (rest st') < length (rest st) then lazy_iter f n st' else []) =
            (if length (rest st') < length (rest st) then lazy_iter f k st' else [])"
        using Suc.IH[of st' k] Suc.prems \<open>m = Suc k\<close> by auto
    qed
    then show ?thesis using \<open>m = Suc k\<close> by simp
  qed
qed

lemma reaches_Nil: "reaches st [] st"
  by (simp add: reaches_def)

lemma reaches_trans: "reaches a u b \<Longrightarrow> reaches b v c \<Longrightarrow> reaches a (u @ v) c"
  by (simp add: reaches_def)

lemma reaches_consumed: "reaches st w st' \<Longrightarrow> consumed st st' = w"
  by (simp add: reaches_def consumed_def)

lemma step_reaches: "st' \<in> set (step p st) \<Longrightarrow> \<exists>c. p c \<and> reaches st [c] st' \<and> snd (snd st') = snd (snd st)"
  by (cases "(p, st)" rule: step.cases) (auto simp: reaches_def rest_def split: if_splits)

lemma star_iter_sound:
  assumes f: "\<And>a b. b \<in> set (f a) \<Longrightarrow> \<exists>w. matches r w \<and> reaches a w b"
  shows "st' \<in> set (star_iter f n st) \<Longrightarrow> \<exists>w. matches (Star r) w \<and> reaches st w st'"
proof (induction n arbitrary: st)
  case 0
  then have "st' = st" by simp
  then show ?case using m_Star0 reaches_Nil by blast
next
  case (Suc n)
  from Suc.prems consider "st' = st"
    | m where "m \<in> set (f st)" "st' \<in> set (star_iter f n m)"
    by (auto split: if_splits)
  then show ?case
  proof cases
    case 1
    then show ?thesis using m_Star0 reaches_Nil by blast
  next
    case 2
    from f[OF 2(1)] obtain u where u: "matches r u" "reaches st u m" by blast
    from Suc.IH[OF 2(2)] obtain v where v: "matches (Star r) v" "reaches m v st'" by blast
    show ?thesis using m_Star[OF u(1) v(1)] reaches_trans[OF u(2) v(2)] by blast
  qed
qed

lemma lazy_iter_sound:
  assumes f: "\<And>a b. b \<in> set (f a) \<Longrightarrow> \<exists>w. matches r w \<and> reaches a w b"
  shows "st' \<in> set (lazy_iter f n st) \<Longrightarrow> \<exists>w. matches (LazyStar r) w \<and> reaches st w st'"
proof (induction n arbitrary: st)
  case 0
  then have "st' = st" by simp
  then show ?case using m_Lazy0 reaches_Nil by blast
next
  case (Suc n)
  from Suc.prems consider "st' = st"
    | m where "m \<in> set (f st)" "st' \<in> set (lazy_iter f n m)"
    by (auto split: if_splits)
  then show ?case
  proof cases
    case 1
    then show ?thesis using m_Lazy0 reaches_Nil by blast
  next
    case 2
    from f[OF 2(1)] obtain u where u: "matches r u" "reaches st u m" by blast
    from Suc.IH[OF 2(2)] obtain v where v: "matches (LazyStar r) v" "reaches m v st'" by blast
    show ?thesis using m_Lazy[OF u(1) v(1)] reaches_trans[OF u(2) v(2)] by blast
  qed
qed

lemma ms_sound: "st' \<in> set (ms re st) \<Longrightarrow> \<exists>w. matches re w \<and> reaches st w st'"
proof (induction re arbitrary: st st')
  case Eps
  then have "st' = st" by simp
  then show ?case using m_Eps reaches_Nil by blast
next
  case (Chr c)
  then show ?case using step_reaches[of st' "\<lambda>x. x = c" st] m_Chr by auto
next
  case (ChrI c)
  then show ?case using step_reaches[of st' "\<lambda>x. canonicalize x = canonicalize c" st] m_ChrI by auto
next
  case (Cls cs)
  then show ?case using step_reaches[of st' "in_class cs" st] m_Cls by auto
next
  case (NCls cs)
  then show ?case using step_reaches[of st' "\<lambda>x. \<not> in_class cs x" st] m_NCls by auto
next
  case Dot
  then show ?case using step_reaches[of st' "\<lambda>x. \<not> is_line_terminator x" st] m_Dot by auto
next
  case Bol
  then have "st' = st" by (simp split: if_splits)
  then show ?case using m_Bol reaches_Nil by blast
next
  case WordB
  then have "st' = st" by (simp split: if_splits)
  then show ?case using m_WordB reaches_Nil by blast
next
  case (Seq a b)
  from Seq.prems obtain m where m: "m \<in> set (ms a st)" "st' \<in> set (ms b m)" by auto
  from Seq.IH(1)[OF m(1)] obtain u where u: "matches a u" "reaches st u m" by blast
  from Seq.IH(2)[OF m(2)] obtain v where v: "matches b v" "reaches m v st'" by blast
  show ?case using m_Seq[OF u(1) v(1)] reaches_trans[OF u(2) v(2)] by blast
next
  case (Alt a b)
  from Alt.prems have "st' \<in> set (ms a st) \<or> st' \<in> set (ms b st)" by simp
  then show ?case using Alt.IH m_Alt1 m_Alt2 by blast
next
  case (Star a)
  from Star.prems have "st' \<in> set (star_iter (ms a) (length (rest st)) st)" by simp
  then show ?case by (rule star_iter_sound[rotated]) (rule Star.IH)
next
  case (LazyStar a)
  from LazyStar.prems have "st' \<in> set (lazy_iter (ms a) (length (rest st)) st)" by simp
  then show ?case by (rule lazy_iter_sound[rotated]) (rule LazyStar.IH)
next
  case (Group n a)
  from Group.prems obtain m where m: "m \<in> set (ms a st)"
    and st': "st' = (fst m, rest m, (n, consumed st m) # snd (snd m))" by auto
  from Group.IH[OF m] obtain w where "matches a w" "reaches st w m" by blast
  then show ?case using m_Group by (auto simp: st' reaches_def rest_def)
qed

lemma mstate_eq: "(fst m, rest m, snd (snd m)) = m"
  by (cases m) (auto simp: rest_def)

lemma star_step_complete:
  assumes m: "m \<in> set (f (l, u @ x, g))" and u: "u \<noteq> []" and rm: "rest m = x"
    and st': "st' \<in> set (star_iter f (length (rest m)) m)"
  shows "st' \<in> set (star_iter f (length (u @ x)) (l, u @ x, g))"
proof -
  obtain k where k: "length (u @ x) = Suc k" using u by (cases u) auto
  have le: "length (rest m) \<le> k" using k rm u by (cases u) auto
  have "star_iter f k m = star_iter f (length (rest m)) m"
    by (rule star_iter_fuel) (use le in auto)
  with st' have "st' \<in> set (star_iter f k m)" by simp
  moreover have "length (rest m) < length (rest (l, u @ x, g))"
    using rm u by (simp add: rest_def)
  ultimately show ?thesis using m unfolding k by (auto simp: rest_def)
qed

lemma lazy_step_complete:
  assumes m: "m \<in> set (f (l, u @ x, g))" and u: "u \<noteq> []" and rm: "rest m = x"
    and st': "st' \<in> set (lazy_iter f (length (rest m)) m)"
  shows "st' \<in> set (lazy_iter f (length (u @ x)) (l, u @ x, g))"
proof -
  obtain k where k: "length (u @ x) = Suc k" using u by (cases u) auto
  have le: "length (rest m) \<le> k" using k rm u by (cases u) auto
  have "lazy_iter f k m = lazy_iter f (length (rest m)) m"
    by (rule lazy_iter_fuel) (use le in auto)
  with st' have "st' \<in> set (lazy_iter f k m)" by simp
  moreover have "length (rest m) < length (rest (l, u @ x, g))"
    using rm u by (simp add: rest_def)
  ultimately show ?thesis using m unfolding k by (auto simp: rest_def)
qed

lemma star_iter_self: "st \<in> set (star_iter f n st)"
  by (cases n) auto

lemma lazy_iter_self: "st \<in> set (lazy_iter f n st)"
  by (cases n) auto

lemma ms_complete:
  "matches re w \<Longrightarrow> plain re \<Longrightarrow>
     \<exists>st' \<in> set (ms re (l, w @ r, g)). fst st' = rev w @ l \<and> rest st' = r"
proof (induction re w arbitrary: l r g rule: matches.induct)
  case (m_Seq a u b v)
  from m_Seq.IH(1)[of l "v @ r" g] m_Seq.prems
  obtain m where m: "m \<in> set (ms a (l, u @ v @ r, g))" "fst m = rev u @ l" "rest m = v @ r"
    by auto
  from m_Seq.IH(2)[of "fst m" r "snd (snd m)"] m_Seq.prems
  obtain st' where st': "st' \<in> set (ms b (fst m, v @ r, snd (snd m)))"
    "fst st' = rev v @ fst m" "rest st' = r" by auto
  have "(fst m, v @ r, snd (snd m)) = m" using m(3) mstate_eq[of m] by simp
  with st' m show ?case by (intro bexI[of _ st']) auto
next
  case (m_Star a u v)
  show ?case
  proof (cases "u = []")
    case True
    with m_Star.IH(2)[of l r g] m_Star.prems show ?thesis by simp
  next
    case False
    from m_Star.IH(1)[of l "v @ r" g] m_Star.prems
    obtain m where m: "m \<in> set (ms a (l, u @ v @ r, g))" "fst m = rev u @ l" "rest m = v @ r"
      by auto
    from m_Star.IH(2)[of "fst m" r "snd (snd m)"] m_Star.prems
    obtain st' where st': "st' \<in> set (ms (Star a) (fst m, v @ r, snd (snd m)))"
      "fst st' = rev v @ fst m" "rest st' = r" by auto
    have meq: "(fst m, v @ r, snd (snd m)) = m" using m(3) mstate_eq[of m] by simp
    from st'(1) have "st' \<in> set (star_iter (ms a) (length (rest m)) m)"
      unfolding meq by simp
    from star_step_complete[OF m(1) False m(3) this]
    have "st' \<in> set (ms (Star a) (l, (u @ v) @ r, g))" by (simp add: rest_def)
    with st' m show ?thesis by (intro bexI[of _ st']) auto
  qed
next
  case (m_Lazy a u v)
  show ?case
  proof (cases "u = []")
    case True
    with m_Lazy.IH(2)[of l r g] m_Lazy.prems show ?thesis by simp
  next
    case False
    from m_Lazy.IH(1)[of l "v @ r" g] m_Lazy.prems
    obtain m where m: "m \<in> set (ms a (l, u @ v @ r, g))" "fst m = rev u @ l" "rest m = v @ r"
      by auto
    from m_Lazy.IH(2)[of "fst m" r "snd (snd m)"] m_Lazy.prems
    obtain st' where st': "st' \<in> set (ms (LazyStar a) (fst m, v @ r, snd (snd m)))"
      "fst st' = rev v @ fst m" "rest st' = r" by auto
    have meq: "(fst m, v @ r, snd (snd m)) = m" using m(3) mstate_eq[of m] by simp
    from st'(1) have "st' \<in> set (lazy_iter (ms a) (length (rest m)) m)"
      unfolding meq by simp
    from lazy_step_complete[OF m(1) False m(3) this]
    have "st' \<in> set (ms (LazyStar a) (l, (u @ v) @ r, g))" by (simp add: rest_def)
    with st' m show ?thesis by (intro bexI[of _ st']) auto
  qed
next
  case (m_Star0 a)
  show ?case using star_iter_self[of "(l, r, g)"] by (auto simp: rest_def intro!: bexI[of _ "(l, r, g)"])
next
  case (m_Lazy0 a)
  show ?case using lazy_iter_self[of "(l, r, g)"] by (auto simp: rest_def intro!: bexI[of _ "(l, r, g)"])
next
  case (m_Group a u n)
  then show ?case by (fastforce simp: rest_def)
next
  case (m_Alt1 a u b)
  from m_Alt1.IH[of l r g] m_Alt1.prems show ?case by auto
next
  case (m_Alt2 b u a)
  from m_Alt2.IH[of l r g] m_Alt2.prems show ?case by auto
qed (auto simp: rest_def)

lemma search_SomeD:
  "search re l r = Some (l0, st) \<Longrightarrow>
     \<exists>u v t. r = u @ v \<and> l0 = rev u @ l \<and> ms re (l0, v, []) = st # t \<and>
        (\<forall>u' v'. r = u' @ v' \<and> length u' < length u \<longrightarrow> ms re (rev u' @ l, v', []) = [])"
proof (induction re l r rule: search.induct)
  case (1 re l)
  then obtain t where "ms re (l, [], []) = st # t" "l0 = l"
    by (auto split: list.splits)
  then show ?case by (intro exI[of _ "[]"] exI[of _ t]) auto
next
  case (2 re l c cs)
  show ?case
  proof (cases "ms re (l, c # cs, [])")
    case Nil
    with 2 obtain u v t where u: "cs = u @ v" "l0 = rev u @ c # l" "ms re (l0, v, []) = st # t"
      "\<forall>u' v'. cs = u' @ v' \<and> length u' < length u \<longrightarrow> ms re (rev u' @ c # l, v', []) = []"
      by auto
    have "\<forall>u' v'. c # cs = u' @ v' \<and> length u' < length (c # u) \<longrightarrow> ms re (rev u' @ l, v', []) = []"
    proof (intro allI impI)
      fix u' v' assume a: "c # cs = u' @ v' \<and> length u' < length (c # u)"
      show "ms re (rev u' @ l, v', []) = []"
      proof (cases u')
        case Nil
        with a \<open>ms re (l, c # cs, []) = []\<close> show ?thesis by auto
      next
        case (Cons x xs)
        with a have "cs = xs @ v'" "length xs < length u" "x = c" by auto
        with u(4) Cons show ?thesis by auto
      qed
    qed
    with u show ?thesis by (intro exI[of _ "c # u"] exI[of _ v] exI[of _ t]) auto
  next
    case (Cons a list)
    with 2 have "l0 = l" "st = a" by auto
    with Cons show ?thesis by (intro exI[of _ "[]"] exI[of _ "c # cs"] exI[of _ list]) auto
  qed
qed

lemma search_NoneD:
  "search re l r = None \<Longrightarrow> r = u @ v \<Longrightarrow> ms re (rev u @ l, v, []) = []"
proof (induction re l r arbitrary: u rule: search.induct)
  case (1 re l)
  then show ?case by (auto split: list.splits)
next
  case (2 re l c cs)
  from 2(2) have nil: "ms re (l, c # cs, []) = []" and rec: "search re (c # l) cs = None"
    by (auto split: list.splits)
  show ?case
  proof (cases u)
    case Nil
    with 2(3) nil show ?thesis by simp
  next
    case (Cons x xs)
    with 2(3) have "cs = xs @ v" "x = c" by auto
    from 2(1)[OF nil rec this(1)] Cons \<open>x = c\<close> show ?thesis by simp
  qed
qed

lemma search_NoneI:
  "(\<And>u v. r = u @ v \<Longrightarrow> ms re (rev u @ l, v, []) = []) \<Longrightarrow> search re l r = None"
proof (induction re l r rule: search.induct)
  case (1 re l)
  from 1[of "[]" "[]"] show ?case by simp
next
  case (2 re l c cs)
  from 2(2)[of "[]" "c # cs"] have nil: "ms re (l, c # cs, []) = []" by simp
  have "search re (c # l) cs = None"
  proof (rule 2(1)[OF nil])
    fix u v assume "cs = u @ v"
    with 2(2)[of "c # u" v] show "ms re (rev u @ c # l, v, []) = []" by simp
  qed
  with nil show ?case by simp
qed

lemma replace_from_None: "search re l r = None \<Longrightarrow> replace_from re f l r = r"
  by (subst replace_from.simps) simp

lemma replace_from_Some:
  assumes s: "search re l r = Some (l0, st)" and ne: "consumed (l0, r, []) st \<noteq> []"
  shows "\<exists>u. r = u @ consumed (l0, r, []) st @ rest st \<and> l0 = rev u @ l \<and>
           replace_from re f l r =
             u @ f (consumed (l0, r, []) st) (snd (snd st)) @ replace_from re f (fst st) (rest st)"
proof -
  from search_extends[OF s] obtain u where u: "l0 = rev u @ l"
    "extends (l0, drop (length u) r, []) st" "u = take (length u) r" by blast
  have c: "consumed (l0, drop (length u) r, []) st = consumed (l0, r, []) st"
    by (simp add: consumed_def)
  from consumed_extends(1)[OF u(2)] have "drop (length u) r = consumed (l0, r, []) st @ rest st"
    by (simp add: c rest_def)
  then have r: "r = u @ consumed (l0, r, []) st @ rest st"
    using u(3) by (metis append_take_drop_id)
  have "rev (take (length l0 - length l) l0) = u" using u(1) by simp
  then have "replace_from re f l r =
      u @ f (consumed (l0, r, []) st) (snd (snd st)) @ replace_from re f (fst st) (rest st)"
    by (subst replace_from.simps) (simp add: s ne)
  with r u(1) show ?thesis by blast
qed

lemma matches_Eps [simp]: "matches Eps w \<longleftrightarrow> w = []"
  by (auto elim: matches_EpsE intro: m_Eps)

lemma matches_Chr [simp]: "matches (Chr c) w \<longleftrightarrow> w = [c]"
  by (auto elim: matches_ChrE intro: m_Chr)

lemma matches_Cls [simp]: "matches (Cls cs) w \<longleftrightarrow> (\<exists>c. w = [c] \<and> in_class cs c)"
  by (auto elim: matches_ClsE intro: m_Cls)

lemma matches_NCls [simp]: "matches (NCls cs) w \<longleftrightarrow> (\<exists>c. w = [c] \<and> \<not> in_class cs c)"
  by (auto elim: matches_NClsE intro: m_NCls)

lemma matches_Seq:
  "matches (Seq a b) w \<longleftrightarrow> (\<exists>u v. w = u @ v \<and> matches a u \<and> matches b v)"
  by (blast elim: matches_SeqE intro: m_Seq)

lemma matches_Seq_Eps [simp]: "matches (Seq a Eps) w \<longleftrightarrow> matches a w"
  by (simp add: matches_Seq)

lemma matches_Seq_Chr [simp]: "matches (Seq (Chr c) b) w \<longleftrightarrow> (\<exists>v. w = c # v \<and> matches b v)"
  by (simp add: matches_Seq)

lemma matches_Seq_Cls [simp]:
  "matches (Seq (Cls cs) b) w \<longleftrightarrow> (\<exists>c v. w = c # v \<and> in_class cs c \<and> matches b v)"
proof
  assume "matches (Seq (Cls cs) b) w"
  then show "\<exists>c v. w = c # v \<and> in_class cs c \<and> matches b v"
    by (auto simp add: matches_Seq)
next
  assume "\<exists>c v. w = c # v \<and> in_class cs c \<and> matches b v"
  then obtain c v where "w = [c] @ v" "matches (Cls cs) [c]" "matches b v" by auto
  then show "matches (Seq (Cls cs) b) w" using m_Seq by blast
qed

lemma matches_Alt [simp]: "matches (Alt a b) w \<longleftrightarrow> matches a w \<or> matches b w"
  by (blast elim: matches_AltE intro: m_Alt1 m_Alt2)

lemma matches_Group [simp]: "matches (Group n a) w \<longleftrightarrow> matches a w"
  by (blast elim: matches_GroupE intro: m_Group)

lemma matches_lit [simp]: "matches (lit s) w \<longleftrightarrow> w = s"
proof (induction s arbitrary: w)
  case Nil
  then show ?case by (simp add: lit_def)
next
  case (Cons c s)
  have "lit (c # s) = Seq (Chr c) (lit s)" by (simp add: lit_def)
  then show ?case using Cons by auto
qed

lemma matches_alts: "matches (alts rs) w \<longleftrightarrow> (if rs = [] then w = [] else \<exists>r\<in>set rs. matches r w)"
  by (induction rs rule: alts.induct) auto

lemma matches_Star_step:
  "matches re w \<Longrightarrow> re = Star (Cls cs) \<Longrightarrow> list_all (in_class cs) w"
  by (induction re w rule: matches.induct) auto

lemma list_all_matches_Star: "list_all (in_class cs) w \<Longrightarrow> matches (Star (Cls cs)) w"
proof (induction w)
  case Nil
  then show ?case by (simp add: m_Star0)
next
  case (Cons c w)
  then have "matches (Cls cs) [c]" "matches (Star (Cls cs)) w" by auto
  from m_Star[OF this] show ?case by simp
qed

lemma matches_Star_Cls [simp]: "matches (Star (Cls cs)) w \<longleftrightarrow> list_all (in_class cs) w"
  using matches_Star_step list_all_matches_Star by blast

lemma matches_Plus_Cls [simp]:
  "matches (Plus (Cls cs)) w \<longleftrightarrow> w \<noteq> [] \<and> list_all (in_class cs) w"
  by (cases w) (auto simp: Plus_def)

lemma in_class_digit [simp]: "in_class [Digits] = is_digit"
  by (rule ext) (simp add: in_class_def)

lemma in_class_upper [simp]: "in_class [Rng CHR ''A'' CHR ''Z''] = is_upper"
  by (rule ext) (simp add: in_class_def is_upper_def code_def)

lemma in_class_upper_digit [simp]:
  "in_class [Rng CHR ''A'' CHR ''Z'', Rng CHR ''0'' CHR ''9''] = (\<lambda>c. is_upper c \<or> is_digit c)"
  by (rule ext) (simp add: in_class_def is_upper_def is_digit_def code_def)


lemma issueKeyRegex_shape:
  "issueKeyRegex prefixes =
     seqs [Alt Bol (NCls [Rng CHR ''A'' CHR ''Z'', Rng CHR ''0'' CHR ''9'']),
           Group 1 (keyPattern prefixes)]"
  by (simp add: issueKeyRegex_def keyPattern_def split: option.splits)

lemma matches_anyKey:
  "matches anyKey key \<longleftrightarrow>
     (\<exists>a bs ds. key = a # bs @ ''-'' @ ds \<and> is_upper a \<and> bs \<noteq> [] \<and>
         list_all (\<lambda>c. is_upper c \<or> is_digit c) bs \<and> ds \<noteq> [] \<and> list_all is_digit ds)"
  (is "?L \<longleftrightarrow> ?R")
proof
  assume ?L
  then obtain a v where a: "key = a # v" "is_upper a"
     "matches (Seq (Plus upper_or_digit) (Seq (Chr CHR ''-'') (Seq (Plus digit) Eps))) v"
    by (auto simp: anyKey_def seqs_def upper_def)
  from a(3) obtain bs x where bs: "v = bs @ x" "matches (Plus upper_or_digit) bs"
    "matches (Seq (Chr CHR ''-'') (Seq (Plus digit) Eps)) x"
    by (auto simp: matches_Seq)
  from bs(3) obtain ds where ds: "x = CHR ''-'' # ds" "matches (Plus digit) ds" by auto
  have "key = a # bs @ ''-'' @ ds \<and> is_upper a \<and> bs \<noteq> [] \<and>
         list_all (\<lambda>c. is_upper c \<or> is_digit c) bs \<and> ds \<noteq> [] \<and> list_all is_digit ds"
    using a(1,2) bs(1,2) ds by (auto simp: upper_or_digit_def digit_def)
  then show ?R by blast
next
  assume ?R
  then obtain a bs ds where k: "key = a # bs @ ''-'' @ ds" "is_upper a" "bs \<noteq> []"
     "list_all (\<lambda>c. is_upper c \<or> is_digit c) bs" "ds \<noteq> []" "list_all is_digit ds" by blast
  have 1: "matches (Plus upper_or_digit) bs" using k by (simp add: upper_or_digit_def)
  have 2: "matches (Seq (Chr CHR ''-'') (Seq (Plus digit) Eps)) (''-'' @ ds)"
    using k by (simp add: digit_def)
  from m_Seq[OF 1 2] show ?L using k(1,2) by (simp add: anyKey_def seqs_def upper_def)
qed

lemma matches_keyPattern: "matches (keyPattern prefixes) key \<longleftrightarrow> is_key prefixes key"
proof (cases prefixes)
  case None
  show ?thesis
    unfolding None keyPattern_def is_key_def by (simp add: matches_anyKey)
next
  case (Some ps)
  have "matches (seqs [alts (map lit ps), Chr CHR ''-'', Plus digit]) key \<longleftrightarrow>
     (\<exists>p ds. key = p @ ''-'' @ ds \<and> (p \<in> set ps \<or> ps = [] \<and> p = []) \<and>
                  ds \<noteq> [] \<and> list_all is_digit ds)" (is "?L \<longleftrightarrow> ?R")
  proof
    assume ?L
    then obtain p x where p: "key = p @ x" "matches (alts (map lit ps)) p"
      "matches (Seq (Chr CHR ''-'') (Seq (Plus digit) Eps)) x"
      by (auto simp: seqs_def matches_Seq)
    from p(3) obtain ds where ds: "x = CHR ''-'' # ds" "matches (Plus digit) ds" by auto
    from p(2) have "p \<in> set ps \<or> ps = [] \<and> p = []"
      by (auto simp: matches_alts split: if_splits)
    with p(1) ds have "key = p @ ''-'' @ ds \<and> (p \<in> set ps \<or> ps = [] \<and> p = []) \<and>
                  ds \<noteq> [] \<and> list_all is_digit ds"
      by (auto simp: digit_def)
    then show ?R by blast
  next
    assume ?R
    then obtain p ds where k: "key = p @ ''-'' @ ds" "p \<in> set ps \<or> ps = [] \<and> p = []"
      "ds \<noteq> []" "list_all is_digit ds" by blast
    have 1: "matches (alts (map lit ps)) p" using k(2) by (auto simp: matches_alts)
    have 2: "matches (Seq (Chr CHR ''-'') (Seq (Plus digit) Eps)) (''-'' @ ds)"
      using k by (simp add: digit_def)
    from m_Seq[OF 1 2] show ?L using k(1) by (simp add: seqs_def)
  qed
  then show ?thesis unfolding Some keyPattern_def is_key_def by simp
qed

lemma plain_lit: "plain (lit s)"
  by (induction s) (auto simp: lit_def)

lemma plain_alts: "(\<And>r. r \<in> set rs \<Longrightarrow> plain r) \<Longrightarrow> plain (alts rs)"
  by (induction rs rule: alts.induct) auto

lemma plain_keyPattern: "plain (keyPattern prefixes)"
  by (auto simp: keyPattern_def seqs_def Plus_def digit_def anyKey_def upper_def upper_or_digit_def
      plain_lit intro!: plain_alts split: option.splits)

lemma concat_map_single: "concat (map (\<lambda>x. [x]) xs) = xs"
  by (induction xs) auto

lemma ms_Seq_Eps: "ms (Seq a Eps) = ms a"
proof
  fix st
  have "ms Eps = (\<lambda>x. [x])" by (rule ext) simp
  then show "ms (Seq a Eps) st = ms a st" by (simp add: concat_map_single)
qed

text \<open>Every match of the key pattern: a separator or the start, then the key, which is group 1\<close>

lemma ms_issueKeyRegex:
  assumes "st' \<in> set (ms (issueKeyRegex prefixes) (l, r, []))"
  shows "\<exists>sep key. reaches (l, r, []) (sep @ key) st' \<and> is_key prefixes key \<and>
            capture (snd (snd st')) 1 = Some key \<and>
            (sep = [] \<and> l = [] \<or> (\<exists>c. sep = [c] \<and> \<not> is_upper c \<and> \<not> is_digit c))"
proof -
  let ?K = "keyPattern prefixes"
  let ?S = "Alt Bol (NCls [Rng CHR ''A'' CHR ''Z'', Rng CHR ''0'' CHR ''9''])"
  have "issueKeyRegex prefixes = Seq ?S (Seq (Group 1 ?K) Eps)"
    by (simp add: issueKeyRegex_shape seqs_def)
  then have "ms (issueKeyRegex prefixes) (l, r, []) =
      concat (map (ms (Group 1 ?K)) (ms ?S (l, r, [])))"
    by (simp only: ms.simps ms_Seq_Eps)
  with assms obtain m where m: "m \<in> set (ms ?S (l, r, []))" "st' \<in> set (ms (Group 1 ?K) m)"
    by auto
  from m(2) obtain k where k: "k \<in> set (ms ?K m)"
    "st' = (fst k, rest k, (1, consumed m k) # snd (snd k))" by auto
  from ms_sound[OF k(1)] obtain key where key: "matches ?K key" "reaches m key k" by blast
  have cap: "capture (snd (snd st')) 1 = Some key"
    using k(2) reaches_consumed[OF key(2)] by (simp add: capture_def)
  have r2: "reaches m key st'" using key(2) k(2) by (simp add: reaches_def rest_def)
  from m(1) have "m = (l, r, []) \<and> l = [] \<or>
      (\<exists>c. \<not> is_upper c \<and> \<not> is_digit c \<and> reaches (l, r, []) [c] m)"
    using step_reaches[of m "\<lambda>x. \<not> in_class [Rng CHR ''A'' CHR ''Z'', Rng CHR ''0'' CHR ''9''] x" "(l, r, [])"]
    by (auto split: if_splits)
  then show ?thesis
  proof
    assume "m = (l, r, []) \<and> l = []"
    with r2 key(1) cap show ?thesis
      by (intro exI[of _ "[]"] exI[of _ key]) (simp add: matches_keyPattern)
  next
    assume "\<exists>c. \<not> is_upper c \<and> \<not> is_digit c \<and> reaches (l, r, []) [c] m"
    then obtain c where c: "\<not> is_upper c" "\<not> is_digit c" "reaches (l, r, []) [c] m" by blast
    from reaches_trans[OF c(3) r2] c(1,2) key(1) cap show ?thesis
      by (intro exI[of _ "[c]"] exI[of _ key]) (simp add: matches_keyPattern)
  qed
qed

lemma is_key_last: "is_key prefixes key \<Longrightarrow> key \<noteq> [] \<and> is_digit (last key)"
  by (auto simp: is_key_def list_all_iff split: option.splits)

lemma indexOf_self: "indexOf key key = 0"
  by (cases key) auto

lemma take_shift_all:
  "take (length key) (c # key) = key \<Longrightarrow> x \<in> set key \<Longrightarrow> x = c"
proof (induction key arbitrary: c)
  case Nil
  then show ?case by simp
next
  case (Cons a key)
  then have "a = c" "take (length key) (a # key) = key" by auto
  with Cons show ?case by auto
qed

lemma indexOf_sep:
  assumes "key \<noteq> []" "is_digit (last key)" "\<not> is_digit c"
  shows "indexOf (c # key) key = 1"
proof -
  have "take (length key) (c # key) \<noteq> key"
  proof
    assume "take (length key) (c # key) = key"
    from take_shift_all[OF this, of "last key"] assms(1) have "last key = c" by simp
    with assms show False by simp
  qed
  then show ?thesis by (simp add: indexOf_self)
qed

lemma linkKey_eq:
  assumes "is_key prefixes key" "capture g 1 = Some key"
    and "sep = [] \<or> (\<exists>c. sep = [c] \<and> \<not> is_digit c)"
  shows "linkKey url (sep @ key) g = sep @ ''['' @ key @ '']('' @ url @ key @ '')''"
proof -
  from is_key_last[OF assms(1)] have k: "key \<noteq> []" "is_digit (last key)" by auto
  from assms(3) have "slice0 (sep @ key) (indexOf (sep @ key) key) = sep"
  proof
    assume "sep = []"
    then show ?thesis by (simp add: indexOf_self slice0_def)
  next
    assume "\<exists>c. sep = [c] \<and> \<not> is_digit c"
    then obtain c where "sep = [c]" "\<not> is_digit c" by blast
    with indexOf_sep[OF k this(2)] show ?thesis by (simp add: slice0_def)
  qed
  then show ?thesis using assms(2) by (simp add: linkKey_def Let_def)
qed

lemma key_step:
  assumes "search (issueKeyRegex prefixes) l r = Some (l0, st)"
  shows "\<exists>u sep key.
           r = u @ sep @ key @ rest st \<and> l0 = rev u @ l \<and> is_key prefixes key \<and>
           (sep = [] \<and> l0 = [] \<or> (\<exists>c. sep = [c] \<and> \<not> is_upper c \<and> \<not> is_digit c)) \<and>
           replace_from (issueKeyRegex prefixes) (linkKey url) l r =
             u @ sep @ ''['' @ key @ '']('' @ url @ key @ '')'' @
             replace_from (issueKeyRegex prefixes) (linkKey url) (fst st) (rest st)"
proof -
  let ?re = "issueKeyRegex prefixes"
  from search_SomeD[OF assms] obtain u0 v t where v: "r = u0 @ v" "l0 = rev u0 @ l"
    "ms ?re (l0, v, []) = st # t" by blast
  then have "st \<in> set (ms ?re (l0, v, []))" by simp
  from ms_issueKeyRegex[OF this] obtain sep key where sk:
    "reaches (l0, v, []) (sep @ key) st" "is_key prefixes key"
    "capture (snd (snd st)) 1 = Some key"
    "sep = [] \<and> l0 = [] \<or> (\<exists>c. sep = [c] \<and> \<not> is_upper c \<and> \<not> is_digit c)" by blast
  have cons: "consumed (l0, r, []) st = sep @ key"
    using sk(1) by (simp add: reaches_def consumed_def)
  from is_key_last[OF sk(2)] have ne: "consumed (l0, r, []) st \<noteq> []" by (simp add: cons)
  from replace_from_Some[OF assms ne, of "linkKey url"] obtain u where u:
    "r = u @ consumed (l0, r, []) st @ rest st" "l0 = rev u @ l"
    "replace_from ?re (linkKey url) l r =
       u @ linkKey url (consumed (l0, r, []) st) (snd (snd st)) @
       replace_from ?re (linkKey url) (fst st) (rest st)" by blast
  have "linkKey url (sep @ key) (snd (snd st)) = sep @ ''['' @ key @ '']('' @ url @ key @ '')''"
    by (rule linkKey_eq[OF sk(2,3)]) (use sk(4) in auto)
  with u cons sk(2,4) show ?thesis
    by (intro exI[of _ u] exI[of _ sep] exI[of _ key]) simp
qed

lemma linkIssueKeys_length:
  "length r \<le> length (replace_from (issueKeyRegex prefixes) (linkKey url) l r) \<and>
   (search (issueKeyRegex prefixes) l r \<noteq> None \<longrightarrow>
      length r < length (replace_from (issueKeyRegex prefixes) (linkKey url) l r))"
proof (induction "length r" arbitrary: l r rule: less_induct)
  case less
  let ?re = "issueKeyRegex prefixes"
  show ?case
  proof (cases "search ?re l r")
    case None
    then show ?thesis by (simp add: replace_from_None)
  next
    case (Some a)
    obtain l0 st where a: "a = (l0, st)" by (cases a)
    from key_step[OF Some[unfolded a], of url] obtain u sep key where k:
      "r = u @ sep @ key @ rest st" "is_key prefixes key"
      "replace_from ?re (linkKey url) l r =
         u @ sep @ ''['' @ key @ '']('' @ url @ key @ '')'' @
         replace_from ?re (linkKey url) (fst st) (rest st)" by blast
    from is_key_last[OF k(2)] have "key \<noteq> []" by simp
    moreover have lr: "length r = length u + length sep + length key + length (rest st)"
      using arg_cong[OF k(1), of length] by simp
    ultimately have "length (rest st) < length r" by simp
    from less[OF this, of "fst st"]
    have "length (rest st) \<le> length (replace_from ?re (linkKey url) (fst st) (rest st))" by simp
    then have "length r < length (replace_from ?re (linkKey url) l r)"
      using lr by (simp add: k(3))
    then show ?thesis by simp
  qed
qed

lemma ms_Seq: "ms (Seq a b) st = concat (map (ms b) (ms a st))"
  by simp

lemma not_upper_bracket: "\<not> is_upper CHR ''['' \<and> \<not> is_digit CHR ''[''"
  by (simp add: is_upper_def is_digit_def code_def)

lemma ms_issueKeyRegex_nonempty:
  assumes "is_key prefixes key" "\<not> is_upper c" "\<not> is_digit c"
  shows "ms (issueKeyRegex prefixes) (l, c # key @ r, []) \<noteq> []"
proof -
  let ?K = "keyPattern prefixes"
  let ?S = "Alt Bol (NCls [Rng CHR ''A'' CHR ''Z'', Rng CHR ''0'' CHR ''9''])"
  have re: "issueKeyRegex prefixes = Seq ?S (Seq (Group 1 ?K) Eps)"
    by (simp add: issueKeyRegex_shape seqs_def)
  have m: "(c # l, key @ r, []) \<in> set (ms ?S (l, c # key @ r, []))"
    using assms(2,3) by simp
  from ms_complete[OF _ plain_keyPattern, of prefixes key "c # l" r "[]"] assms(1)
  obtain k where "k \<in> set (ms ?K (c # l, key @ r, []))"
    by (auto simp: matches_keyPattern)
  then have "ms (Group 1 ?K) (c # l, key @ r, []) \<noteq> []" by auto
  with m have "concat (map (ms (Group 1 ?K)) (ms ?S (l, c # key @ r, []))) \<noteq> []"
    by (metis (no_types, lifting) concat_eq_Nil_conv image_eqI list.set_map)
  moreover have "ms (issueKeyRegex prefixes) (l, c # key @ r, []) =
      concat (map (ms (Group 1 ?K)) (ms ?S (l, c # key @ r, [])))"
    unfolding re ms_Seq ms_Seq_Eps ..
  ultimately show ?thesis by simp
qed

lemma relinked:
  assumes "search (issueKeyRegex prefixes) [] s \<noteq> None"
  shows "search (issueKeyRegex prefixes) [] (replace_from (issueKeyRegex prefixes) (linkKey url) [] s)
           \<noteq> None"
proof
  let ?re = "issueKeyRegex prefixes"
  assume none: "search ?re [] (replace_from ?re (linkKey url) [] s) = None"
  from assms obtain l0 st where "search ?re [] s = Some (l0, st)" by auto
  from key_step[OF this, of url] obtain u sep key where k: "is_key prefixes key"
    "replace_from ?re (linkKey url) [] s =
       u @ sep @ ''['' @ key @ '']('' @ url @ key @ '')'' @
       replace_from ?re (linkKey url) (fst st) (rest st)" by blast
  let ?tail = "'']('' @ url @ key @ '')'' @ replace_from ?re (linkKey url) (fst st) (rest st)"
  have "replace_from ?re (linkKey url) [] s = (u @ sep) @ (CHR ''['' # key @ ?tail)"
    by (simp add: k(2))
  from search_NoneD[OF none this]
  have "ms ?re (rev (u @ sep) @ [], CHR ''['' # key @ ?tail, []) = []" .
  with ms_issueKeyRegex_nonempty[OF k(1), of "CHR ''[''" "rev (u @ sep) @ []" ?tail] not_upper_bracket
  show False by simp
qed

lemma relink_iff:
  "linkIssueKeys prefixes url (linkIssueKeys prefixes url s) = linkIssueKeys prefixes url s \<longleftrightarrow>
     \<not> truthy url \<or> search (issueKeyRegex prefixes) [] s = None"
proof (cases "truthy url")
  case False
  then show ?thesis by (auto simp: linkIssueKeys_def truthy_def split: option.splits)
next
  case True
  then obtain u where u: "url = Some u" "u \<noteq> []" by (auto simp: truthy_def split: option.splits)
  let ?re = "issueKeyRegex prefixes"
  let ?f = "\<lambda>s. replace_from ?re (linkKey u) [] s"
  have eq: "linkIssueKeys prefixes url = ?f"
    by (rule ext) (simp add: linkIssueKeys_def u replaceAll_def)
  show ?thesis
  proof (cases "search ?re [] s")
    case None
    then show ?thesis by (simp add: eq replace_from_None)
  next
    case (Some a)
    then have "search ?re [] (?f s) \<noteq> None" using relinked[of prefixes s u] by simp
    with linkIssueKeys_length[of "?f s" prefixes u "[]"]
    have "length (?f s) < length (?f (?f s))" by blast
    then have "?f (?f s) \<noteq> ?f s" by auto
    with Some True show ?thesis by (simp add: eq)
  qed
qed

text \<open>Where the rewriter has found a key, its output has a key again and grows when rewritten.\<close>

lemma relink_grows:
  assumes "truthy url" "search (issueKeyRegex prefixes) [] s \<noteq> None"
  shows "search (issueKeyRegex prefixes) [] (linkIssueKeys prefixes url s) \<noteq> None \<and>
         length (linkIssueKeys prefixes url s) <
           length (linkIssueKeys prefixes url (linkIssueKeys prefixes url s))"
proof -
  from assms(1) obtain u where u: "url = Some u" "u \<noteq> []"
    by (auto simp: truthy_def split: option.splits)
  let ?re = "issueKeyRegex prefixes"
  let ?f = "\<lambda>s. replace_from ?re (linkKey u) [] s"
  have eq: "linkIssueKeys prefixes url = ?f"
    by (rule ext) (simp add: linkIssueKeys_def u replaceAll_def)
  have f: "search ?re [] (?f s) \<noteq> None" using relinked[OF assms(2), of u] .
  with linkIssueKeys_length[of "?f s" prefixes u "[]"]
  have "length (?f s) < length (?f (?f s))" by blast
  with f show ?thesis by (simp add: eq)
qed

section \<open>Properties of the rewriting of notes\<close>

lemma map_state_replaceIssueLink:
  "map_state (\<lambda>h note. replaceIssueLink h note hst own repo) h ns =
     (ns, foldl (relink hst own repo) h ns)"
  by (induction ns arbitrary: h) (simp_all add: replaceIssueLink_def rewritten_def relink_def)

lemma relink_title: "title (foldl (relink hst own repo) h ns n) = title (h n)"
  by (induction ns arbitrary: h) (simp_all add: relink_def)

lemma relink_other: "n \<notin> set ns \<Longrightarrow> foldl (relink hst own repo) h ns n = h n"
  by (induction ns arbitrary: h) (auto simp add: relink_def)

lemma relink_once:
  "distinct ns \<Longrightarrow> n \<in> set ns \<Longrightarrow>
     text (foldl (relink hst own repo) h ns n) = rewritten hst own repo (text (h n))"
proof (induction ns arbitrary: h)
  case Nil
  then show ?case by simp
next
  case (Cons a ns)
  show ?case
  proof (cases "n = a")
    case True
    with Cons.prems have "a \<notin> set ns" by simp
    then show ?thesis using True by (simp add: relink_other) (simp add: relink_def)
  next
    case False
    with Cons.prems have "distinct ns" "n \<in> set ns" by auto
    from Cons.IH[OF this] False show ?thesis by (simp add: relink_def)
  qed
qed

lemma changelogCommit_heap:
  "changelogCommit context prefixes url (seen, h) c = (e, (seen', h')) \<Longrightarrow>
     Entry.notes e = kept h c \<and>
     h' = foldl (relink (Context.host context) (Context.owner context) (Context.repository context)) h (kept h c) \<and>
     hash e = sha c \<and>
     seen' = (if sha c \<noteq> [] then insert (sha c) seen else seen)"
  by (auto simp: changelogCommit_def Let_def map_state_replaceIssueLink kept_def)

lemma kept_title_cong: "(\<And>n. title (h' n) = title (h n)) \<Longrightarrow> kept h' c = kept h c"
  by (simp add: kept_def)

lemma map_state_Cons_eq:
  "f s x = (y, s1) \<Longrightarrow> map_state f s1 xs = (ys, s2) \<Longrightarrow> map_state f s (x # xs) = (y # ys, s2)"
  by simp

lemma map_state_commits:
  "map_state (changelogCommit context prefixes url) (seen, h) cs = (es, (seen', h')) \<Longrightarrow>
     map Entry.notes es = map (kept h) cs \<and>
     map hash es = map sha cs \<and>
     seen' = seen \<union> {s \<in> sha ` set cs. s \<noteq> []} \<and>
     h' = foldl (relink (Context.host context) (Context.owner context) (Context.repository context)) h
            (concat (map (kept h) cs))"
proof (induction cs arbitrary: seen h es seen' h')
  case Nil
  then show ?case by simp
next
  case (Cons c cs)
  let ?r = "relink (Context.host context) (Context.owner context) (Context.repository context)"
  obtain e s1 h1 where c: "changelogCommit context prefixes url (seen, h) c = (e, (s1, h1))"
    by (metis prod.exhaust)
  obtain es1 s2 h2 where r: "map_state (changelogCommit context prefixes url) (s1, h1) cs = (es1, (s2, h2))"
    by (metis prod.exhaust)
  from changelogCommit_heap[OF c] have e: "Entry.notes e = kept h c" "h1 = foldl ?r h (kept h c)"
    "hash e = sha c" "s1 = (if sha c \<noteq> [] then insert (sha c) seen else seen)" by auto
  have k: "kept h1 = kept h"
    by (rule ext, rule kept_title_cong) (simp add: e(2) relink_title)
  from map_state_Cons_eq[OF c r] Cons.prems have eq: "es = e # es1" "seen' = s2" "h' = h2"
    by (simp_all del: map_state.simps)
  from Cons.IH[OF r] e k show ?case unfolding eq by auto
qed

lemma gs_plain:
  "CHR ''$'' \<notin> set a \<Longrightarrow>
     getSubstitution m p q caps (a @ t) = a @ getSubstitution m p q caps t"
proof (induction a)
  case Nil
  then show ?case by simp
next
  case (Cons c a)
  then show ?case by (cases "a @ t") auto
qed

lemma gs_group1:
  "\<not> is_digit e \<Longrightarrow>
     getSubstitution m p q [Some ds] (CHR ''$'' # CHR ''1'' # e # t) =
       ds @ getSubstitution m p q [Some ds] (e # t)"
  by (simp add: is_digit_def digit_value_def code_def capture_text_def)

lemma gs_template:
  assumes "CHR ''$'' \<notin> set hst" "CHR ''$'' \<notin> set own" "CHR ''$'' \<notin> set repo"
  shows "getSubstitution m p q [Some ds] (issueLink_template hst own repo) =
           ''([#'' @ ds @ '']('' @ hst @ ''/'' @ own @ ''/'' @ repo @ ''/issues/'' @ ds @ ''))''"
proof -
  let ?gs = "getSubstitution m p q [Some ds]"
  let ?A = "''('' @ hst @ ''/'' @ own @ ''/'' @ repo @ ''/issues/''"
  have d1: "\<not> is_digit CHR '']''" and d2: "\<not> is_digit CHR '')''"
    by (simp_all add: is_digit_def code_def)
  have mid: "CHR ''$'' \<notin> set (CHR '']'' # ?A)"
    using assms by simp
  have 4: "?gs ''$1))'' = ds @ ''))''"
    using gs_group1[OF d2, of m p q ds "'')''"] by simp
  have 3: "?gs ((CHR '']'' # ?A) @ ''$1))'') = (CHR '']'' # ?A) @ ds @ ''))''"
    using gs_plain[OF mid, of m p q "[Some ds]" "''$1))''"] 4 by simp
  have 2: "?gs (CHR ''$'' # CHR ''1'' # CHR '']'' # (?A @ ''$1))'')) = ds @ (CHR '']'' # ?A) @ ds @ ''))''"
    using gs_group1[OF d1, of m p q ds "?A @ ''$1))''"] 3 by simp
  have "CHR ''$'' \<notin> set ''([#''" by simp
  from gs_plain[OF this, of m p q "[Some ds]" "CHR ''$'' # CHR ''1'' # CHR '']'' # (?A @ ''$1))'')"] 2
  have "?gs (''([#'' @ (CHR ''$'' # CHR ''1'' # CHR '']'' # (?A @ ''$1))''))) =
      ''([#'' @ ds @ (CHR '']'' # ?A) @ ds @ ''))''" by simp
  moreover have "issueLink_template hst own repo =
      ''([#'' @ (CHR ''$'' # CHR ''1'' # CHR '']'' # (?A @ ''$1))''))"
    by (simp add: issueLink_template_def)
  ultimately show ?thesis by simp
qed

lemma ms_Seq_mem: "st' \<in> set (ms (Seq a b) st) \<longleftrightarrow> (\<exists>m \<in> set (ms a st). st' \<in> set (ms b m))"
  by auto

lemma matches_Seq_Group_Plus:
  "matches (Seq (Group n (Plus (Cls cs))) b) w \<longleftrightarrow>
     (\<exists>ds v. w = ds @ v \<and> ds \<noteq> [] \<and> list_all (in_class cs) ds \<and> matches b v)"
  by (auto simp: matches_Seq)

lemma matches_issueLink:
  "matches issueLink_re w \<longleftrightarrow> (\<exists>ds. w = ''(#'' @ ds @ '')'' \<and> ds \<noteq> [] \<and> list_all is_digit ds)"
  by (auto simp: issueLink_re_def seqs_def matches_Seq_Group_Plus)

lemma plain_issueLink: "plain issueLink_re"
  by (simp add: issueLink_re_def seqs_def Plus_def)

lemma ms_Chr_mem:
  "m \<in> set (ms (Chr c) st) \<Longrightarrow> reaches st [c] m \<and> snd (snd m) = snd (snd st)"
  using step_reaches[of m "\<lambda>x. x = c" st] by auto

lemma ms_issueLink:
  assumes "st' \<in> set (ms issueLink_re st)"
  shows "\<exists>ds. reaches st (''(#'' @ ds @ '')'') st' \<and> capture (snd (snd st')) 1 = Some ds \<and>
           ds \<noteq> [] \<and> list_all is_digit ds"
proof -
  let ?D = "Plus (Cls [Digits])"
  have re: "issueLink_re = Seq (Chr CHR ''('') (Seq (Chr CHR ''#'') (Seq (Group 1 ?D) (Seq (Chr CHR '')'') Eps)))"
    by (simp add: issueLink_re_def seqs_def)
  from assms obtain m1 where m1: "m1 \<in> set (ms (Chr CHR ''('') st)"
    "st' \<in> set (ms (Seq (Chr CHR ''#'') (Seq (Group 1 ?D) (Seq (Chr CHR '')'') Eps))) m1)"
    unfolding re ms_Seq_mem by blast
  from m1(2) obtain m2 where m2: "m2 \<in> set (ms (Chr CHR ''#'') m1)"
    "st' \<in> set (ms (Seq (Group 1 ?D) (Seq (Chr CHR '')'') Eps)) m2)"
    unfolding ms_Seq_mem by blast
  from m2(2) obtain m3 where m3: "m3 \<in> set (ms (Group 1 ?D) m2)"
    "st' \<in> set (ms (Chr CHR '')'') m3)"
    unfolding ms_Seq_mem ms_Seq_Eps by blast
  from m3(1) obtain k where k: "k \<in> set (ms ?D m2)"
    "m3 = (fst k, rest k, (1, consumed m2 k) # snd (snd k))" by auto
  from ms_sound[OF k(1)] obtain ds where ds: "matches ?D ds" "reaches m2 ds k" by blast
  have r3: "reaches m2 ds m3" using ds(2) k(2) by (simp add: reaches_def rest_def)
  have c3: "capture (snd (snd m3)) 1 = Some ds"
    using k(2) reaches_consumed[OF ds(2)] by (simp add: capture_def)
  from ms_Chr_mem[OF m3(2)] have r4: "reaches m3 '')'' st'" "snd (snd st') = snd (snd m3)" by auto
  from ms_Chr_mem[OF m1(1)] ms_Chr_mem[OF m2(1)]
  have r12: "reaches st ''('' m1" "reaches m1 ''#'' m2" by auto
  have "reaches st (''('' @ ''#'' @ ds @ '')'') st'"
    by (intro reaches_trans[OF r12(1)] reaches_trans[OF r12(2)] reaches_trans[OF r3] r4(1))
  with c3 r4(2) ds(1) show ?thesis by (intro exI[of _ ds]) simp
qed

lemma digits_then_paren_unique:
  assumes "ds @ CHR '')'' # x = ds' @ CHR '')'' # y" "list_all is_digit ds" "list_all is_digit ds'"
  shows "ds = ds'"
  using assms
proof (induction ds arbitrary: ds')
  case Nil
  then show ?case by (cases ds') (auto simp: is_digit_def code_def)
next
  case (Cons a ds)
  then show ?case by (cases ds') (auto simp: is_digit_def code_def)
qed

lemma search_issueLink_None:
  assumes "\<And>i ds. \<not> issue_ref_at t i ds"
  shows "search issueLink_re [] t = None"
proof (rule search_NoneI)
  fix u v assume t: "t = u @ v"
  show "ms issueLink_re (rev u @ [], v, []) = []"
  proof (rule ccontr)
    assume "ms issueLink_re (rev u @ [], v, []) \<noteq> []"
    then obtain st' where "st' \<in> set (ms issueLink_re (rev u @ [], v, []))"
      by (cases "ms issueLink_re (rev u @ [], v, [])") auto
    from ms_issueLink[OF this] obtain ds where "reaches (rev u @ [], v, []) (''(#'' @ ds @ '')'') st'"
      "ds \<noteq> []" "list_all is_digit ds" by blast
    then have "issue_ref_at t (length u) ds"
      using t by (auto simp: issue_ref_at_def reaches_def rest_def)
    with assms show False by blast
  qed
qed

lemma search_issueLink_first:
  assumes at: "issue_ref_at t i ds" and first: "\<And>j ds'. j < i \<Longrightarrow> \<not> issue_ref_at t j ds'"
  shows "\<exists>st. search issueLink_re [] t = Some (rev (take i t), st) \<and>
           rest st = drop (i + length ds + 3) t \<and>
           consumed (rev (take i t), t, []) st = ''(#'' @ ds @ '')'' \<and>
           capture (snd (snd st)) 1 = Some ds"
proof -
  from at obtain x where x: "drop i t = ''(#'' @ ds @ '')'' @ x" "i \<le> length t" "ds \<noteq> []"
    "list_all is_digit ds" by (auto simp: issue_ref_at_def)
  have ti: "t = take i t @ (''(#'' @ ds @ '')'') @ x"
    using append_take_drop_id[of i t] unfolding x(1) by simp
  have "matches issueLink_re (''(#'' @ ds @ '')'')"
    unfolding matches_issueLink using x(3,4) by blast
  from ms_complete[OF this plain_issueLink, of "rev (take i t) @ []" x "[]"]
  have ne: "ms issueLink_re (rev (take i t) @ [], (''(#'' @ ds @ '')'') @ x, []) \<noteq> []" by auto
  have "search issueLink_re [] t \<noteq> None"
  proof
    assume "search issueLink_re [] t = None"
    from search_NoneD[OF this ti] ne show False by simp
  qed
  then obtain l0 st where s: "search issueLink_re [] t = Some (l0, st)" by auto
  from search_SomeD[OF s] obtain u v tl where u: "t = u @ v" "l0 = rev u @ []"
    "ms issueLink_re (l0, v, []) = st # tl"
    "\<forall>u' v'. t = u' @ v' \<and> length u' < length u \<longrightarrow> ms issueLink_re (rev u' @ [], v', []) = []"
    by blast
  have le: "length u \<le> i"
  proof (rule ccontr)
    assume "\<not> length u \<le> i"
    then have "length (take i t) < length u" using x(2) by simp
    with u(4) ti have "ms issueLink_re (rev (take i t) @ [], (''(#'' @ ds @ '')'') @ x, []) = []"
      by blast
    with ne show False by simp
  qed
  from u(3) have "st \<in> set (ms issueLink_re (l0, v, []))" by simp
  from ms_issueLink[OF this] obtain ds' where ds': "reaches (l0, v, []) (''(#'' @ ds' @ '')'') st"
    "capture (snd (snd st)) 1 = Some ds'" "ds' \<noteq> []" "list_all is_digit ds'" by blast
  have v: "v = ''(#'' @ ds' @ '')'' @ rest st" using ds'(1) by (simp add: reaches_def rest_def)
  have dv: "drop (length u) t = v" using u(1) by simp
  have "issue_ref_at t (length u) ds'"
    using ds'(3,4) v dv u(1) by (auto simp: issue_ref_at_def)
  with first[of "length u" ds'] le have len: "length u = i" by (cases "length u < i") auto
  then have ut: "u = take i t" "v = drop i t" using u(1) by auto
  from x(1) v ut(2) have "ds @ CHR '')'' # x = ds' @ CHR '')'' # rest st" by simp
  from digits_then_paren_unique[OF this x(4) ds'(4)] have dd: "ds' = ds" by simp
  have r: "rest st = drop (i + length ds + 3) t"
  proof -
    have A: "drop (length (''(#'' @ ds @ '')'')) ((''(#'' @ ds @ '')'') @ rest st) = rest st"
      by (rule append_eq_conv_conj[THEN iffD1, THEN conjunct2, symmetric]) (rule refl)
    have B: "length ds + 3 = length (''(#'' @ ds @ '')'')" by simp
    have C: "drop i t = (''(#'' @ ds @ '')'') @ rest st" using v ut(2) dd by simp
    have "drop (length ds + 3) (drop i t) = rest st" by (simp only: B C A)
    then show ?thesis by (simp add: add.commute add.left_commute)
  qed
  have "consumed (rev (take i t), t, []) st = consumed (l0, v, []) st"
    unfolding consumed_def using u(2) ut(1) by simp
  with reaches_consumed[OF ds'(1)] dd
  have c: "consumed (rev (take i t), t, []) st = ''(#'' @ ds @ '')''" by simp
  from s u(2) ut(1) r c ds'(2) dd show ?thesis by simp
qed

lemma rewritten_spec:
  assumes "CHR ''$'' \<notin> set hst" "CHR ''$'' \<notin> set own" "CHR ''$'' \<notin> set repo"
  shows "first_issue_linked hst own repo t (rewritten hst own repo t)"
proof (cases "\<exists>i ds. issue_ref_at t i ds")
  case False
  then have "search issueLink_re [] t = None" by (intro search_issueLink_None) blast
  then have "rewritten hst own repo t = t" by (simp add: rewritten_def replace_first_def)
  with False show ?thesis by (simp add: first_issue_linked_def)
next
  case True
  then have "\<exists>i. (\<exists>ds. issue_ref_at t i ds)" by blast
  then obtain i where i: "\<exists>ds. issue_ref_at t i ds" "\<forall>j<i. \<not> (\<exists>ds. issue_ref_at t j ds)"
    using exists_least_iff[of "\<lambda>i. \<exists>ds. issue_ref_at t i ds"] by blast
  then obtain ds where ds: "issue_ref_at t i ds" by blast
  have first: "\<And>j ds'. j < i \<Longrightarrow> \<not> issue_ref_at t j ds'" using i(2) by blast
  from search_issueLink_first[OF ds first] obtain st where st:
    "search issueLink_re [] t = Some (rev (take i t), st)"
    "rest st = drop (i + length ds + 3) t"
    "consumed (rev (take i t), t, []) st = ''(#'' @ ds @ '')''"
    "capture (snd (snd st)) 1 = Some ds" by blast
  have "map (capture (snd (snd st))) [1..<Suc 1] = [Some ds]" using st(4) by simp
  then have "rewritten hst own repo t =
      take i t @ getSubstitution (''(#'' @ ds @ '')'') (take i t) (drop (i + length ds + 3) t) [Some ds]
         (issueLink_template hst own repo) @ drop (i + length ds + 3) t"
    using st(1,2,3) by (simp add: rewritten_def replace_first_def)
  also have "\<dots> = take i t @
      (''([#'' @ ds @ '']('' @ hst @ ''/'' @ own @ ''/'' @ repo @ ''/issues/'' @ ds @ ''))'') @
      drop (i + length ds + 3) t"
    by (simp only: gs_template[OF assms])
  finally have "rewritten hst own repo t = take i t @
      ''([#'' @ ds @ '']('' @ hst @ ''/'' @ own @ ''/'' @ repo @ ''/issues/'' @ ds @ ''))'' @
      drop (i + length ds + 3) t" by simp
  with ds first show ?thesis unfolding first_issue_linked_def by blast
qed

text \<open>A text has one rewriting with its first reference linked.\<close>

lemma issue_ref_at_unique:
  assumes "issue_ref_at t i ds" "issue_ref_at t i ds'"
  shows "ds = ds'"
proof -
  from assms(1) obtain x where x: "drop i t = ''(#'' @ ds @ '')'' @ x" "list_all is_digit ds"
    unfolding issue_ref_at_def by blast
  from assms(2) obtain y where y: "drop i t = ''(#'' @ ds' @ '')'' @ y" "list_all is_digit ds'"
    unfolding issue_ref_at_def by blast
  from x(1) y(1) have "ds @ CHR '')'' # x = ds' @ CHR '')'' # y" by simp
  then show ?thesis using x(2) y(2) by (rule digits_then_paren_unique)
qed

lemma first_issue_linked_unique:
  assumes "first_issue_linked hst own repo t a" "first_issue_linked hst own repo t b"
  shows "a = b"
proof (cases "\<exists>i ds. issue_ref_at t i ds")
  case False
  with assms show ?thesis by (auto simp: first_issue_linked_def)
next
  case True
  with assms obtain i ds j es where
    a: "issue_ref_at t i ds" "\<forall>k ds'. k < i \<longrightarrow> \<not> issue_ref_at t k ds'"
       "a = take i t @ ''([#'' @ ds @ '']('' @ hst @ ''/'' @ own @ ''/'' @ repo @ ''/issues/'' @ ds @ ''))'' @
              drop (i + length ds + 3) t" and
    b: "issue_ref_at t j es" "\<forall>k ds'. k < j \<longrightarrow> \<not> issue_ref_at t k ds'"
       "b = take j t @ ''([#'' @ es @ '']('' @ hst @ ''/'' @ own @ ''/'' @ repo @ ''/issues/'' @ es @ ''))'' @
              drop (j + length es + 3) t"
    unfolding first_issue_linked_def by blast
  have "i = j" using a(1,2) b(1,2) by (meson linorder_neqE_nat)
  with a(1) b(1) have "ds = es" by (auto intro: issue_ref_at_unique)
  with \<open>i = j\<close> a(3) b(3) show ?thesis by simp
qed

lemma kept_concat: "concat (map (kept h) cs) = filter (\<lambda>n. title (h n) = ''BREAKING CHANGE'') (concat (map notes cs))"
  by (induction cs) (simp_all add: kept_def)

lemma breaking_notes:
  assumes m: "map_state (changelogCommit context prefixes url) (seen, h) cs = (es, (seen', h'))"
    and d: "distinct (filter (\<lambda>n. title (h n) = ''BREAKING CHANGE'') (concat (map notes cs)))"
    and nd: "CHR ''$'' \<notin> set (Context.host context) \<union> set (Context.owner context) \<union>
                       set (Context.repository context)"
  shows "map Entry.notes es =
           map (\<lambda>c. filter (\<lambda>n. title (h n) = ''BREAKING CHANGE'') (notes c)) cs \<and>
         (\<forall>ns \<in> set (map Entry.notes es). \<forall>n \<in> set ns.
            title (h' n) = ''BREAKING CHANGE'' \<and>
            first_issue_linked (Context.host context) (Context.owner context)
              (Context.repository context) (text (h n)) (text (h' n)))"
proof -
  let ?r = "relink (Context.host context) (Context.owner context) (Context.repository context)"
  from map_state_commits[OF m] have n: "map Entry.notes es = map (kept h) cs"
    and h': "h' = foldl ?r h (concat (map (kept h) cs))" by auto
  have dk: "distinct (concat (map (kept h) cs))" using d by (simp only: kept_concat)
  have "\<forall>ns \<in> set (map (kept h) cs). \<forall>n \<in> set ns.
            title (h' n) = ''BREAKING CHANGE'' \<and>
            first_issue_linked (Context.host context) (Context.owner context)
              (Context.repository context) (text (h n)) (text (h' n))"
  proof (intro ballI)
    fix ns n assume ns: "ns \<in> set (map (kept h) cs)" and nn: "n \<in> set ns"
    then have mem: "n \<in> set (concat (map (kept h) cs))" by auto
    from ns nn have "title (h n) = ''BREAKING CHANGE''" by (auto simp: kept_def)
    then have t: "title (h' n) = ''BREAKING CHANGE''" by (simp add: h' relink_title)
    have "text (h' n) = rewritten (Context.host context) (Context.owner context)
        (Context.repository context) (text (h n))"
      unfolding h' by (rule relink_once[OF dk mem])
    with rewritten_spec[of "Context.host context" "Context.owner context" "Context.repository context" "text (h n)"]
      nd t
    show "title (h' n) = ''BREAKING CHANGE'' \<and>
            first_issue_linked (Context.host context) (Context.owner context)
              (Context.repository context) (text (h n)) (text (h' n))" by simp
  qed
  with n show ?thesis by (simp add: kept_def[abs_def])
qed

lemma changelogCommits_heap:
  "changelogCommits h cs options = (entries, h') \<Longrightarrow>
     h' = foldl (relink (Context.host (buildContext options)) (Context.owner (buildContext options))
                   (Context.repository (buildContext options))) h (concat (map (kept h) cs))"
proof -
  assume a: "changelogCommits h cs options = (entries, h')"
  obtain es seen' h1 where m: "map_state (changelogCommit (buildContext options) (trackerPrefixes options)
      (trackerUrl options)) ({}, h) cs = (es, (seen', h1))" by (metis prod.exhaust)
  from a have "h' = h1" by (simp add: changelogCommits_def Let_def m)
  with map_state_commits[OF m] show ?thesis by simp
qed

lemma buildNotes_heap:
  "buildNotes parseArray this h cs options = (out, h') \<Longrightarrow>
     h' = foldl (relink (Context.host (buildContext options)) (Context.owner (buildContext options))
                   (Context.repository (buildContext options))) h (concat (map (kept h) cs))"
proof -
  assume a: "buildNotes parseArray this h cs options = (out, h')"
  obtain entries h1 where m: "changelogCommits h cs options = (entries, h1)" by (metis prod.exhaust)
  from a have "h' = h1" by (simp add: buildNotes_def Let_def m)
  with changelogCommits_heap[OF m] show ?thesis by simp
qed

lemma buildNotes_frame_aux:
  assumes "buildNotes parseArray this h cs options = (out, h')"
  shows "(\<forall>n. title (h' n) = title (h n)) \<and>
         (\<forall>n. text (h' n) \<noteq> text (h n) \<longrightarrow>
              title (h n) = ''BREAKING CHANGE'' \<and> (\<exists>c \<in> set cs. n \<in> set (notes c)))"
proof (intro conjI allI impI)
  note h' = buildNotes_heap[OF assms]
  fix n
  show "title (h' n) = title (h n)" by (simp add: h' relink_title)
  assume "text (h' n) \<noteq> text (h n)"
  then have "n \<in> set (concat (map (kept h) cs))"
    unfolding h' by (rule contrapos_np) (simp add: relink_other)
  then show "title (h n) = ''BREAKING CHANGE''" and "\<exists>c \<in> set cs. n \<in> set (notes c)"
    by (auto simp: kept_def)
qed

section \<open>Properties of the entries and of the Others block\<close>








lemma join_Cons: "ys \<noteq> [] \<Longrightarrow> join sep (x # ys) = x @ sep @ join sep ys"
  by (cases ys) simp_all

lemma join_append:
  "xs \<noteq> [] \<Longrightarrow> ys \<noteq> [] \<Longrightarrow> join sep (xs @ ys) = join sep xs @ sep @ join sep ys"
proof (induction xs)
  case Nil
  then show ?case by simp
next
  case (Cons x xs)
  show ?case
  proof (cases "xs = []")
    case True
    with Cons.prems show ?thesis by (simp add: join_Cons)
  next
    case False
    with Cons show ?thesis by (simp add: join_Cons)
  qed
qed


section \<open>Properties of escaping\<close>

lemma replace_from_skip:
  assumes "ms re (l, c # cs, []) = []"
  shows "replace_from re f l (c # cs) = c # replace_from re f (c # l) cs"
proof (cases "search re (c # l) cs")
  case None
  then have "search re l (c # cs) = None" using assms by simp
  with None show ?thesis by (simp add: replace_from_None)
next
  case (Some a)
  obtain l0 st where a: "a = (l0, st)" by (cases a)
  have s: "search re l (c # cs) = Some (l0, st)" using assms Some a by simp
  from search_extends[OF Some[unfolded a]] obtain u where u: "l0 = rev u @ c # l" by blast
  have c: "consumed (l0, c # cs, []) st = consumed (l0, cs, []) st" by (simp add: consumed_def)
  have t1: "rev (take (length l0 - length l) l0) = c # u" using u by simp
  have t2: "rev (take (length l0 - length (c # l)) l0) = u" using u by simp
  let ?K = "f (consumed (l0, cs, []) st) (snd (snd st)) @
          (if consumed (l0, cs, []) st = []
           then (case rest st of [] \<Rightarrow> [] | x # xs \<Rightarrow> x # replace_from re f (x # fst st) xs)
           else replace_from re f (fst st) (rest st))"
  have L: "replace_from re f l (c # cs) = (c # u) @ ?K"
    by (subst replace_from.simps) (simp only: s option.case prod.case c t1)
  have R: "replace_from re f (c # l) cs = u @ ?K"
    by (subst replace_from.simps) (simp only: Some a option.case prod.case t2)
  show ?thesis unfolding L R by simp
qed

lemma replace_from_hit:
  assumes "ms re (l, r, []) = st # rs" "consumed (l, r, []) st \<noteq> []"
  shows "replace_from re f l r =
           f (consumed (l, r, []) st) (snd (snd st)) @ replace_from re f (fst st) (rest st)"
proof -
  have "search re l r = Some (l, st)" using assms(1) by (cases r) simp_all
  then show ?thesis using assms(2) by (subst replace_from.simps) simp
qed

lemma replace_from_Nil:
  assumes "ms re (l, [], []) = []"
  shows "replace_from re f l [] = []"
  using assms by (subst replace_from.simps) simp

lemma matches_Dot [simp]: "matches Dot w \<longleftrightarrow> (\<exists>c. w = [c] \<and> \<not> is_line_terminator c)"
  by (auto elim: matches.cases intro: m_Dot)

lemma matches_Star_NCls_step:
  "matches re w \<Longrightarrow> re = Star (NCls cs) \<Longrightarrow> list_all (\<lambda>c. \<not> in_class cs c) w"
  by (induction re w rule: matches.induct) auto

lemma list_all_matches_Star_NCls:
  "list_all (\<lambda>c. \<not> in_class cs c) w \<Longrightarrow> matches (Star (NCls cs)) w"
proof (induction w)
  case Nil
  then show ?case by (simp add: m_Star0)
next
  case (Cons c w)
  then have "matches (NCls cs) [c]" "matches (Star (NCls cs)) w" by auto
  from m_Star[OF this] show ?case by simp
qed

lemma matches_Star_NCls [simp]:
  "matches (Star (NCls cs)) w \<longleftrightarrow> list_all (\<lambda>c. \<not> in_class cs c) w"
  using matches_Star_NCls_step list_all_matches_Star_NCls by blast

lemma in_class_backtick [simp]: "in_class [One CHR ''`''] c \<longleftrightarrow> c = CHR ''`''"
  by (simp add: in_class_def)

lemma matches_htmlEscape:
  assumes "matches htmlEscape_re w"
  shows "(\<exists>x. w = CHR ''`'' # CHR ''`'' # x) \<or>
         (\<exists>a. w = CHR ''`'' # a @ ''`'' \<and> CHR ''`'' \<notin> set a) \<or> w = ''<'' \<or> w = ''>''"
proof -
  let ?a1 = "seqs [lit ''``'', NCls [One CHR ''`''], Star Dot, NCls [One CHR ''`''], lit ''``'']"
  let ?a2 = "seqs [Chr CHR ''`'', Star (NCls [One CHR ''`'']), Chr CHR ''`'']"
  from assms have "matches ?a1 w \<or> matches ?a2 w \<or> w = ''<'' \<or> w = ''>''"
    by (simp add: htmlEscape_re_def)
  moreover have "\<exists>x. w = CHR ''`'' # CHR ''`'' # x" if "matches ?a1 w"
    using that by (auto simp: seqs_def lit_def matches_Seq)
  moreover have "\<exists>a. w = CHR ''`'' # a @ ''`'' \<and> CHR ''`'' \<notin> set a" if "matches ?a2 w"
  proof -
    from that obtain v where v: "w = CHR ''`'' # v"
      "matches (Seq (Star (NCls [One CHR ''`''])) (Seq (Chr CHR ''`'') Eps)) v"
      by (auto simp: seqs_def)
    from v(2) obtain a where "v = a @ ''`''" "list_all (\<lambda>c. c \<noteq> CHR ''`'') a"
      by (auto simp: matches_Seq)
    with v(1) show ?thesis by (auto simp: list_all_iff)
  qed
  ultimately show ?thesis by blast
qed

lemma matches_span:
  assumes "CHR ''`'' \<notin> set a"
  shows "matches htmlEscape_re (CHR ''`'' # a @ ''`'')"
proof -
  have 1: "matches (Star (NCls [One CHR ''`''])) a" using assms by (auto simp: list_all_iff)
  have 2: "matches (Seq (Chr CHR ''`'') Eps) ''`''" by simp
  from m_Seq[OF 1 2] show ?thesis by (simp add: htmlEscape_re_def seqs_def)
qed

lemma plain_htmlEscape: "plain htmlEscape_re"
  by (simp add: htmlEscape_re_def seqs_def lit_def)

lemma ms_none:
  assumes "\<And>w x. matches re w \<Longrightarrow> r \<noteq> w @ x"
  shows "ms re (l, r, g) = []"
proof (rule ccontr)
  assume "ms re (l, r, g) \<noteq> []"
  then obtain st' where "st' \<in> set (ms re (l, r, g))" by (cases "ms re (l, r, g)") auto
  from ms_sound[OF this] obtain w where "matches re w" "reaches (l, r, g) w st'" by blast
  with assms[of w "rest st'"] show False by (simp add: reaches_def rest_def)
qed

lemma ms_unique_head:
  assumes "matches re w" "plain re"
    and "\<And>w' x'. matches re w' \<Longrightarrow> w @ x = w' @ x' \<Longrightarrow> w' = w"
  shows "\<exists>st rs. ms re (l, w @ x, g) = st # rs \<and> fst st = rev w @ l \<and> rest st = x \<and>
           consumed (l, w @ x, g) st = w"
proof -
  from ms_complete[OF assms(1,2), of l x g] obtain st rs where s: "ms re (l, w @ x, g) = st # rs"
    by (cases "ms re (l, w @ x, g)") auto
  then have "st \<in> set (ms re (l, w @ x, g))" by simp
  from ms_sound[OF this] obtain w' where w': "matches re w'" "reaches (l, w @ x, g) w' st" by blast
  then have "w @ x = w' @ rest st" by (simp add: reaches_def rest_def)
  from assms(3)[OF w'(1) this] have "w' = w" .
  with w'(2) s reaches_consumed[OF w'(2)] show ?thesis by (auto simp: reaches_def rest_def)
qed

lemma htmlEscape_alt: "htmlEscape s = replace_from htmlEscape_re escape_match [] s"
  by (simp add: htmlEscape_def replaceAll_def escape_match_def)

lemma nd_Cons: "no_double_backtick (c # cs) \<Longrightarrow> no_double_backtick cs"
  by (cases cs) auto

lemma nd_append: "no_double_backtick (a @ b) \<Longrightarrow> no_double_backtick b"
  by (induction a) (auto dest: nd_Cons)

lemma nd_tl_dropWhile: "no_double_backtick cs \<Longrightarrow> no_double_backtick (tl (dropWhile P cs))"
proof -
  assume a: "no_double_backtick cs"
  have "cs = takeWhile P cs @ dropWhile P cs" by simp
  with a have d: "no_double_backtick (dropWhile P cs)" by (metis nd_append)
  show ?thesis
  proof (cases "dropWhile P cs")
    case Nil
    show ?thesis unfolding Nil by simp
  next
    case (Cons x xs)
    with d show ?thesis by (auto dest: nd_Cons)
  qed
qed

lemma first_backtick_unique:
  assumes "a @ CHR ''`'' # b = a' @ CHR ''`'' # b'" "CHR ''`'' \<notin> set a" "CHR ''`'' \<notin> set a'"
  shows "a = a'"
  using assms
proof (induction a arbitrary: a')
  case Nil
  then show ?case by (cases a') auto
next
  case (Cons x a)
  then show ?case by (cases a') auto
qed

lemma split_first_backtick:
  assumes "CHR ''`'' \<in> set cs"
  shows "cs = takeWhile (\<lambda>x. x \<noteq> CHR ''`'') cs @ CHR ''`'' # tl (dropWhile (\<lambda>x. x \<noteq> CHR ''`'') cs)"
    and "CHR ''`'' \<notin> set (takeWhile (\<lambda>x. x \<noteq> CHR ''`'') cs)"
proof -
  from assms have "dropWhile (\<lambda>x. x \<noteq> CHR ''`'') cs \<noteq> []" by (simp add: dropWhile_eq_Nil_conv) 
  then obtain y ys where d: "dropWhile (\<lambda>x. x \<noteq> CHR ''`'') cs = y # ys"
    by (cases "dropWhile (\<lambda>x. x \<noteq> CHR ''`'') cs") auto
  from hd_dropWhile[of "\<lambda>x. x \<noteq> CHR ''`''" cs] d have "y = CHR ''`''" by auto
  with d show "cs = takeWhile (\<lambda>x. x \<noteq> CHR ''`'') cs @ CHR ''`'' # tl (dropWhile (\<lambda>x. x \<noteq> CHR ''`'') cs)"
    using takeWhile_dropWhile_id[of "\<lambda>x. x \<noteq> CHR ''`''" cs] by simp
  show "CHR ''`'' \<notin> set (takeWhile (\<lambda>x. x \<noteq> CHR ''`'') cs)"
    using set_takeWhileD by fastforce
qed

lemma hit_lt:
  "replace_from htmlEscape_re escape_match l (CHR ''<'' # cs) =
     ''&lt;'' @ replace_from htmlEscape_re escape_match (CHR ''<'' # l) cs"
proof -
  have m: "matches htmlEscape_re ''<''" by (simp add: htmlEscape_re_def)
  have u: "w' = ''<''" if "matches htmlEscape_re w'" "''<'' @ cs = w' @ x'" for w' x'
    using matches_htmlEscape[OF that(1)] that(2) by auto
  have "\<exists>st rs. ms htmlEscape_re (l, ''<'' @ cs, []) = st # rs \<and> fst st = rev ''<'' @ l \<and>
      rest st = cs \<and> consumed (l, ''<'' @ cs, []) st = ''<''"
    by (rule ms_unique_head[OF m plain_htmlEscape]) (rule u, assumption+)
  then obtain st rs where
    s: "ms htmlEscape_re (l, ''<'' @ cs, []) = st # rs" "fst st = rev ''<'' @ l" "rest st = cs"
    "consumed (l, ''<'' @ cs, []) st = ''<''" by blast
  from replace_from_hit[of htmlEscape_re l "''<'' @ cs" st rs escape_match] s
  show ?thesis by (simp add: escape_match_def)
qed

lemma hit_gt:
  "replace_from htmlEscape_re escape_match l (CHR ''>'' # cs) =
     ''&gt;'' @ replace_from htmlEscape_re escape_match (CHR ''>'' # l) cs"
proof -
  have m: "matches htmlEscape_re ''>''" by (simp add: htmlEscape_re_def)
  have u: "w' = ''>''" if "matches htmlEscape_re w'" "''>'' @ cs = w' @ x'" for w' x'
    using matches_htmlEscape[OF that(1)] that(2) by auto
  have "\<exists>st rs. ms htmlEscape_re (l, ''>'' @ cs, []) = st # rs \<and> fst st = rev ''>'' @ l \<and>
      rest st = cs \<and> consumed (l, ''>'' @ cs, []) st = ''>''"
    by (rule ms_unique_head[OF m plain_htmlEscape]) (rule u, assumption+)
  then obtain st rs where
    s: "ms htmlEscape_re (l, ''>'' @ cs, []) = st # rs" "fst st = rev ''>'' @ l" "rest st = cs"
    "consumed (l, ''>'' @ cs, []) st = ''>''" by blast
  from replace_from_hit[of htmlEscape_re l "''>'' @ cs" st rs escape_match] s
  show ?thesis by (simp add: escape_match_def)
qed

lemma hit_span:
  assumes a: "CHR ''`'' \<notin> set a" "a \<noteq> []"
  shows "replace_from htmlEscape_re escape_match l (CHR ''`'' # a @ CHR ''`'' # b) =
     CHR ''`'' # a @ CHR ''`'' # replace_from htmlEscape_re escape_match (rev (CHR ''`'' # a @ ''`'') @ l) b"
proof -
  let ?w = "CHR ''`'' # a @ ''`''"
  have m: "matches htmlEscape_re ?w" by (rule matches_span[OF a(1)])
  have u: "w' = ?w" if "matches htmlEscape_re w'" "?w @ b = w' @ x'" for w' x'
  proof -
    from matches_htmlEscape[OF that(1)] consider
      x where "w' = CHR ''`'' # CHR ''`'' # x"
      | a' where "w' = CHR ''`'' # a' @ ''`''" "CHR ''`'' \<notin> set a'"
      | "w' = ''<''" | "w' = ''>''" by blast
    then show ?thesis
    proof cases
      case 1
      with that(2) a show ?thesis by (cases a) auto
    next
      case 2
      with that(2) have "a @ CHR ''`'' # b = a' @ CHR ''`'' # x'" by simp
      from first_backtick_unique[OF this a(1) 2(2)] 2(1) show ?thesis by simp
    next
      case 3
      with that(2) show ?thesis by simp
    next
      case 4
      with that(2) show ?thesis by simp
    qed
  qed
  have "\<exists>st rs. ms htmlEscape_re (l, ?w @ b, []) = st # rs \<and> fst st = rev ?w @ l \<and>
      rest st = b \<and> consumed (l, ?w @ b, []) st = ?w"
    by (rule ms_unique_head[OF m plain_htmlEscape]) (rule u, assumption+)
  then obtain st rs where
    s: "ms htmlEscape_re (l, ?w @ b, []) = st # rs" "fst st = rev ?w @ l" "rest st = b"
    "consumed (l, ?w @ b, []) st = ?w" by blast
  from replace_from_hit[of htmlEscape_re l "?w @ b" st rs escape_match] s
  show ?thesis by (simp add: escape_match_def)
qed

lemma miss:
  assumes "c \<noteq> CHR ''<''" "c \<noteq> CHR ''>''"
    and "c = CHR ''`'' \<Longrightarrow> CHR ''`'' \<notin> set cs"
  shows "replace_from htmlEscape_re escape_match l (c # cs) =
     c # replace_from htmlEscape_re escape_match (c # l) cs"
proof (rule replace_from_skip, rule ms_none)
  fix w x assume w: "matches htmlEscape_re w"
  show "c # cs \<noteq> w @ x"
  proof
    assume e: "c # cs = w @ x"
    from matches_htmlEscape[OF w] consider
      y where "w = CHR ''`'' # CHR ''`'' # y"
      | a' where "w = CHR ''`'' # a' @ ''`''" "CHR ''`'' \<notin> set a'"
      | "w = ''<''" | "w = ''>''" by blast
    then show False
    proof cases
      case 1
      with e assms(3) show ?thesis by auto
    next
      case 2
      with e have "c = CHR ''`''" "cs = a' @ CHR ''`'' # x" by auto
      with assms(3) show ?thesis by auto
    next
      case 3
      with e assms show ?thesis by simp
    next
      case 4
      with e assms show ?thesis by simp
    qed
  qed
qed

lemma miss_Nil: "replace_from htmlEscape_re escape_match l [] = []"
proof (rule replace_from_Nil, rule ms_none)
  fix w x assume "matches htmlEscape_re w"
  from matches_htmlEscape[OF this] show "[] \<noteq> w @ x" by auto
qed

lemma htmlEscape_simple_from:
  "no_double_backtick r \<Longrightarrow> replace_from htmlEscape_re escape_match l r = escape_simple r"
proof (induction r arbitrary: l rule: escape_simple.induct)
  case 1
  then show ?case by (simp add: miss_Nil)
next
  case (2 c cs)
  note nd = nd_Cons[OF "2.prems"]
  consider "c = CHR ''<''" | "c = CHR ''>''" | "c = CHR ''`''" "CHR ''`'' \<in> set cs"
    | "c \<noteq> CHR ''<''" "c \<noteq> CHR ''>''" "c = CHR ''`'' \<Longrightarrow> CHR ''`'' \<notin> set cs" by blast
  then show ?case
  proof cases
    case 1
    with "2.IH"(1)[OF _ nd] show ?thesis by (simp add: hit_lt)
  next
    case 2
    with "2.IH"(2)[OF _ _ nd] show ?thesis by (simp add: hit_gt)
  next
    case 3
    let ?a = "takeWhile (\<lambda>x. x \<noteq> CHR ''`'') cs"
    let ?b = "tl (dropWhile (\<lambda>x. x \<noteq> CHR ''`'') cs)"
    from split_first_backtick[OF 3(2)] have cs: "cs = ?a @ CHR ''`'' # ?b" and na: "CHR ''`'' \<notin> set ?a"
      by auto
    have ne: "?a \<noteq> []"
    proof
      assume "?a = []"
      with cs have "cs = CHR ''`'' # ?b" by simp
      with "2.prems" 3(1) show False by (cases cs) auto
    qed
    have ndb: "no_double_backtick ?b" by (rule nd_tl_dropWhile[OF nd])
    have c3: "c \<noteq> CHR ''<''" "c \<noteq> CHR ''>''" using 3(1) by auto
    from "2.IH"(3)[OF c3 _ ndb] 3
    have IH: "\<And>l. replace_from htmlEscape_re escape_match l ?b = escape_simple ?b" by simp
    have "replace_from htmlEscape_re escape_match l (c # cs) =
        replace_from htmlEscape_re escape_match l (CHR ''`'' # ?a @ CHR ''`'' # ?b)"
      using cs 3(1) by simp
    also have "\<dots> = CHR ''`'' # ?a @ CHR ''`'' # escape_simple ?b"
      by (simp only: hit_span[OF na ne] IH)
    finally show ?thesis using 3 by simp
  next
    case 4
    then have n: "\<not> (c = CHR ''`'' \<and> CHR ''`'' \<in> set cs)" by blast
    from "2.IH"(4)[OF 4(1,2) n nd] miss[OF 4] 4(1,2) n show ?thesis
      by (cases "c = CHR ''`''") simp_all
  qed
qed

lemma nd_no_backtick: "CHR ''`'' \<notin> set r \<Longrightarrow> no_double_backtick r"
  by (induction r rule: no_double_backtick.induct) auto

lemma nd_Cons_plain: "c \<noteq> CHR ''`'' \<Longrightarrow> no_double_backtick (c # r) = no_double_backtick r"
  by (cases r) auto

lemma nd_Cons_backtick:
  "no_double_backtick (CHR ''`'' # r) \<longleftrightarrow> (r = [] \<or> hd r \<noteq> CHR ''`'') \<and> no_double_backtick r"
  by (cases r) auto

lemma nd_plain_prefix:
  "CHR ''`'' \<notin> set a \<Longrightarrow> no_double_backtick (a @ r) = no_double_backtick r"
  by (induction a) (auto simp: nd_Cons_plain)

lemma esc_no_backtick: "CHR ''`'' \<notin> set r \<Longrightarrow> CHR ''`'' \<notin> set (escape_simple r)"
  by (induction r rule: escape_simple.induct) auto

lemma esc_hd:
  "r \<noteq> [] \<Longrightarrow> hd r \<noteq> CHR ''`'' \<Longrightarrow> escape_simple r \<noteq> [] \<and> hd (escape_simple r) \<noteq> CHR ''`''"
  by (cases r) auto

lemma esc_Nil_iff: "escape_simple r = [] \<longleftrightarrow> r = []"
  by (cases r) auto

lemma esc_nd: "no_double_backtick r \<Longrightarrow> no_double_backtick (escape_simple r)"
proof (induction r rule: escape_simple.induct)
  case 1
  then show ?case by simp
next
  case (2 c cs)
  note nd = nd_Cons[OF "2.prems"]
  consider "c = CHR ''<''" | "c = CHR ''>''" | "c = CHR ''`''" "CHR ''`'' \<in> set cs"
    | "c \<noteq> CHR ''<''" "c \<noteq> CHR ''>''" "\<not> (c = CHR ''`'' \<and> CHR ''`'' \<in> set cs)" by blast
  then show ?case
  proof cases
    case 1
    with "2.IH"(1)[OF _ nd] show ?thesis by (simp add: nd_Cons_plain)
  next
    case 2
    with "2.IH"(2)[OF _ _ nd] show ?thesis by (simp add: nd_Cons_plain)
  next
    case 3
    let ?a = "takeWhile (\<lambda>x. x \<noteq> CHR ''`'') cs"
    let ?b = "tl (dropWhile (\<lambda>x. x \<noteq> CHR ''`'') cs)"
    from split_first_backtick[OF 3(2)] have cs: "cs = ?a @ CHR ''`'' # ?b" and na: "CHR ''`'' \<notin> set ?a"
      by auto
    have ne: "?a \<noteq> []"
    proof
      assume "?a = []"
      with cs have "cs = CHR ''`'' # ?b" by simp
      with "2.prems" 3(1) show False by (cases cs) auto
    qed
    have ndb: "no_double_backtick ?b" by (rule nd_tl_dropWhile[OF nd])
    have c3: "c \<noteq> CHR ''<''" "c \<noteq> CHR ''>''" using 3(1) by auto
    from "2.IH"(3)[OF c3 _ ndb] 3 have IH: "no_double_backtick (escape_simple ?b)" by simp
    have "no_double_backtick (CHR ''`'' # ?b)"
      using nd cs nd_append[of ?a "CHR ''`'' # ?b"] by simp
    then have "?b = [] \<or> hd ?b \<noteq> CHR ''`''" by (simp add: nd_Cons_backtick)
    then have hb: "escape_simple ?b = [] \<or> hd (escape_simple ?b) \<noteq> CHR ''`''"
    proof
      assume "?b = []"
      then show ?thesis by (simp only: escape_simple.simps) simp
    next
      assume "hd ?b \<noteq> CHR ''`''"
      then show ?thesis using esc_hd[of ?b] by (cases "?b = []") (simp_all add: esc_Nil_iff)
    qed
    have "no_double_backtick (CHR ''`'' # escape_simple ?b)"
      using IH hb by (simp add: nd_Cons_backtick)
    then have "no_double_backtick (?a @ CHR ''`'' # escape_simple ?b)"
      using na by (simp add: nd_plain_prefix)
    moreover have "hd (?a @ CHR ''`'' # escape_simple ?b) \<noteq> CHR ''`''"
      using ne na by (cases ?a) auto
    ultimately have "no_double_backtick (CHR ''`'' # ?a @ CHR ''`'' # escape_simple ?b)"
      by (simp add: nd_Cons_backtick)
    with 3 show ?thesis by simp
  next
    case 4
    show ?thesis
    proof (cases "c = CHR ''`''")
      case True
      with 4 have "CHR ''`'' \<notin> set cs" by simp
      then have "CHR ''`'' \<notin> set (escape_simple cs)" by (rule esc_no_backtick)
      then have "no_double_backtick (CHR ''`'' # escape_simple cs)"
        by (cases "escape_simple cs") (auto simp: nd_Cons_backtick nd_no_backtick)
      with True 4 \<open>CHR ''`'' \<notin> set cs\<close> show ?thesis by simp
    next
      case False
      with "2.IH"(4)[OF 4 nd] 4 show ?thesis by (simp add: nd_Cons_plain)
    qed
  qed
qed

lemma takeWhile_to_backtick:
  "CHR ''`'' \<notin> set a \<Longrightarrow> takeWhile (\<lambda>x. x \<noteq> CHR ''`'') (a @ CHR ''`'' # y) = a"
  by (induction a) auto

lemma dropWhile_to_backtick:
  "CHR ''`'' \<notin> set a \<Longrightarrow> dropWhile (\<lambda>x. x \<noteq> CHR ''`'') (a @ CHR ''`'' # y) = CHR ''`'' # y"
  by (induction a) auto

lemma esc_plain_Cons:
  "c \<noteq> CHR ''<'' \<Longrightarrow> c \<noteq> CHR ''>'' \<Longrightarrow> c \<noteq> CHR ''`'' \<Longrightarrow> escape_simple (c # r) = c # escape_simple r"
  by simp

lemma esc_idem: "no_double_backtick r \<Longrightarrow> escape_simple (escape_simple r) = escape_simple r"
proof (induction r rule: escape_simple.induct)
  case 1
  then show ?case by simp
next
  case (2 c cs)
  note nd = nd_Cons[OF "2.prems"]
  consider "c = CHR ''<''" | "c = CHR ''>''" | "c = CHR ''`''" "CHR ''`'' \<in> set cs"
    | "c \<noteq> CHR ''<''" "c \<noteq> CHR ''>''" "\<not> (c = CHR ''`'' \<and> CHR ''`'' \<in> set cs)" by blast
  then show ?case
  proof cases
    case 1
    with "2.IH"(1)[OF _ nd] show ?thesis by simp
  next
    case 2
    with "2.IH"(2)[OF _ _ nd] show ?thesis by simp
  next
    case 3
    let ?a = "takeWhile (\<lambda>x. x \<noteq> CHR ''`'') cs"
    let ?b = "tl (dropWhile (\<lambda>x. x \<noteq> CHR ''`'') cs)"
    let ?y = "?a @ CHR ''`'' # escape_simple ?b"
    from split_first_backtick[OF 3(2)] have na: "CHR ''`'' \<notin> set ?a" by auto
    have ndb: "no_double_backtick ?b" by (rule nd_tl_dropWhile[OF nd])
    have c3: "c \<noteq> CHR ''<''" "c \<noteq> CHR ''>''" using 3(1) by auto
    from "2.IH"(3)[OF c3 _ ndb] 3
    have IH: "escape_simple (escape_simple ?b) = escape_simple ?b" by simp
    have e: "escape_simple (c # cs) = CHR ''`'' # ?y" using 3 by simp
    have t: "takeWhile (\<lambda>x. x \<noteq> CHR ''`'') ?y = ?a"
      by (rule takeWhile_to_backtick[OF na])
    have d: "dropWhile (\<lambda>x. x \<noteq> CHR ''`'') ?y = CHR ''`'' # escape_simple ?b"
      by (rule dropWhile_to_backtick[OF na])
    have "escape_simple (CHR ''`'' # ?y) = CHR ''`'' # ?a @ CHR ''`'' # escape_simple (escape_simple ?b)"
      by (subst escape_simple.simps) (simp add: t d)
    then show ?thesis unfolding e IH by simp
  next
    case 4
    show ?thesis
    proof (cases "c = CHR ''`''")
      case True
      with 4 have n: "CHR ''`'' \<notin> set cs" by simp
      then have "CHR ''`'' \<notin> set (escape_simple cs)" by (rule esc_no_backtick)
      with "2.IH"(4)[OF 4 nd] True n show ?thesis by simp
    next
      case False
      with "2.IH"(4)[OF 4 nd] 4 show ?thesis by simp
    qed
  qed
qed

text \<open>
  On a text in which no backtick is directly followed by another one, the first
  alternative of the pattern is never used, and escaping twice gives what escaping once
  gives.
\<close>

lemma htmlEscape_simple: "no_double_backtick s \<Longrightarrow> htmlEscape s = escape_simple s"
  by (simp add: htmlEscape_alt htmlEscape_simple_from)

lemma htmlEscape_idem_aux:
  assumes "no_double_backtick s"
  shows "htmlEscape (htmlEscape s) = htmlEscape s"
  using assms esc_nd[OF assms] by (simp add: htmlEscape_simple esc_idem)

text \<open>
  A span in double backticks is kept when it holds two characters or more. The text of a
  span of one character is escaped like the text outside of the spans.
\<close>

lemma htmlEscape_short_span:
  "htmlEscape ''``<a``'' = ''``<a``''"
  "htmlEscape ''``<``'' = ''``&lt;``''"
  "htmlEscape ''`<`'' = ''`<`''"
  by code_simp+


section \<open>The sibling variants on the same inputs\<close>

text \<open>
  The header pattern of \<^verbatim>\<open>part_002\<close> follows the configured prefixes; the one of
  \<^verbatim>\<open>default.ts\<close> accepts the key \<^verbatim>\<open>XYZ-1\<close> whatever they are.
\<close>

lemma jiraHeader_part_002_allow_list:
  "\<not> test (jiraHeader_part_002 (Some [''ABC''])) ''XYZ-1: foo''"
  "test (jiraHeader_part_002 (Some [''ABC''])) ''ABC-1: foo''"
  "test (jiraHeader_part_002 None) ''XYZ-1: foo''"
  "test jiraHeader ''XYZ-1: foo''"
  by code_simp+

text \<open>
  The test of \<^verbatim>\<open>part_001\<close> refuses a first line without letters; none of the four tests of
  the recovery loop of \<^verbatim>\<open>default.ts\<close> does.
\<close>

lemma hasLetters_part_001_version:
  "\<not> test hasLetters_part_001 ''1.2.3''"
  "\<not> test rawIssueHeader ''1.2.3''"
  "\<not> test conventionalHeader ''1.2.3''"
  "\<not> test mergeHeader ''1.2.3''"
  "\<not> test skipRelease ''1.2.3''"
  by code_simp+

section \<open>The host of the context\<close>

text \<open>
  C10. The host of the built context is \<^verbatim>\<open>options.host\<close> when that is a text that is not
  empty, and \<^verbatim>\<open>https://github.com\<close> when it is not set or empty.
\<close>

theorem context_host_or_default:
  "(\<forall>h. host options = Some h \<and> h \<noteq> [] \<longrightarrow> Context.host (buildContext options) = h) \<and>
   (host options = None \<or> host options = Some [] \<longrightarrow>
      Context.host (buildContext options) = ''https://github.com'')"
  by (auto simp: buildContext_def or_else_def DEFAULT_HOST_def)

theorem context_host_or_default_witness:
  "Context.host (buildContext (plain_options\<lparr>host := Some ''https://ghe.example.com''\<rparr>)) =
     ''https://ghe.example.com'' \<and>
   Context.host (buildContext (plain_options\<lparr>host := Some []\<rparr>)) = ''https://github.com'' \<and>
   Context.host (buildContext plain_options) = ''https://github.com''"
  using context_host_or_default [of "plain_options\<lparr>host := Some ''https://ghe.example.com''\<rparr>"]
    context_host_or_default [of "plain_options\<lparr>host := Some []\<rparr>"]
    context_host_or_default [of plain_options]
  by (simp add: plain_options_def)

section \<open>Escaping\<close>

text \<open>
  C6. Between two code spans in double backticks on one line, \<^verbatim>\<open><\<close> and \<^verbatim>\<open>>\<close> are not
  escaped: the first alternative of the pattern runs from the first pair of backticks to
  the last one, and the whole text is kept as one match.
\<close>

theorem htmlEscape_between_spans:
  "htmlEscape ''``a`` <b> ``c``'' = ''``a`` <b> ``c``''"
  by code_simp

text \<open>
  C7. Escaping twice does not give what escaping once gives. The first alternative of the
  pattern wants two characters between the pairs of backticks, so the span of one
  character at the start is not kept the first time: its opening pair is taken for an
  empty span in single backticks, its \<^verbatim>\<open><\<close> is escaped, and its closing pair opens a match
  that runs over the line feed to the pair at the end, with the \<^verbatim>\<open><\<close> of the second line
  inside. The second time the span holds four characters and the first alternative
  takes it, so the \<^verbatim>\<open><\<close> of the second line is outside of every match and is escaped.
\<close>

theorem htmlEscape_twice_differs:
  "htmlEscape ''``<``\<newline><``'' = ''``&lt;``\<newline><``'' \<and>
   htmlEscape (htmlEscape ''``<``\<newline><``'') = ''``&lt;``\<newline>&lt;``''"
  by code_simp

section \<open>Raw commits\<close>

text \<open>
  C5. A raw commit whose first line has no letter is recovered like any other first line
  that none of the three patterns refuses: it gets an entry and a line of the Others block.
\<close>

theorem numeric_raw_commit_recovered:
  "fst (buildNotes silent_writer plain_this h []
     (plain_options\<lparr>commits := Some [\<lparr>raw_sha = ''s1'', raw_message = ''1.2.3''\<rparr>]\<rparr>)) =
   ''### Others\<newline>\<newline>* 1.2.3 ([s1](https://github.com/o/r/commit/s1))''"
  by code_simp

section \<open>Headers with an issue key\<close>

text \<open>
  C2. With the allow-list \<^verbatim>\<open>["ABC"]\<close>, a commit whose message starts with the key
  \<^verbatim>\<open>XYZ-1\<close> is still taken for a tracker-issue header: its type becomes \<^verbatim>\<open>others\<close> and its
  subject is the message, not \<^verbatim>\<open>bareMessage\<close>. The pattern \<open>jiraHeader\<close> does not depend on
  the list.
\<close>

theorem header_outside_allow_list:
  "fst (changelogCommit context (Some [''ABC'']) (Some ''https://t/'') (seen, h)
     \<lparr> sha = ''abc1234'', message = ''XYZ-1: foo'', bareMessage = ''foo'', type = Some ''fix'',
       scope = None, notes = [], references = [], breaking = False \<rparr>) =
   \<lparr> body = [], subject = ''XYZ-1: foo'', Entry.type = Some ''others'', Entry.scope = None,
     Entry.notes = [], Entry.references = [], mentions = [], merge = None, revert = None,
     header = ''XYZ-1: foo'', footer = [], hash = ''abc1234'' \<rparr>"
  by code_simp

section \<open>Linking issue keys\<close>

text \<open>
  C3. As the claim states it, a key right after a lower-case letter would not be replaced.
  The pattern only refuses an upper-case letter or a digit before the key, so this key is
  replaced.
\<close>

theorem key_after_lower_case_replaced:
  "linkIssueKeys (Some [''ABC'']) (Some ''https://t/'') ''xABC-1'' = ''x[ABC-1](https://t/ABC-1)''"
  by code_simp

text \<open>
  C3, amended. One step of the rewriter, searching from the position where \<open>l\<close> is
  to the left and \<open>r\<close> to the right. When the pattern is not found, \<open>r\<close> is left as it is.
  When it is found, \<open>r\<close> is some text \<open>u\<close> without a match, then a separator, then a key, then
  the rest. The separator is empty and the key is at the start of the whole text, or it
  is one character that is neither an upper-case letter nor a digit. The result keeps \<open>u\<close>
  and the separator, puts \<^verbatim>\<open>[KEY](trackerUrl + KEY)\<close> for the key, and goes on with the rest.
\<close>

theorem issue_key_step:
  assumes "search (issueKeyRegex prefixes) l r = Some (l0, st)"
  shows "\<exists>u sep key.
           r = u @ sep @ key @ rest st \<and> l0 = rev u @ l \<and> is_key prefixes key \<and>
           (sep = [] \<and> l0 = [] \<or> (\<exists>c. sep = [c] \<and> \<not> is_upper c \<and> \<not> is_digit c)) \<and>
           replace_from (issueKeyRegex prefixes) (linkKey url) l r =
             u @ sep @ ''['' @ key @ '']('' @ url @ key @ '')'' @
             replace_from (issueKeyRegex prefixes) (linkKey url) (fst st) (rest st)"
  using assms by (rule key_step)

theorem issue_key_step_witness:
  "search (issueKeyRegex (Some [''ABC''])) [] ''a xABC-1 b'' =
     Some ('' a'', (''1-CBAx a'', '' b'', [(1, ''ABC-1'')])) \<and>
   (\<exists>u sep key.
      ''a xABC-1 b'' = u @ sep @ key @ '' b'' \<and> '' a'' = rev u @ [] \<and>
      is_key (Some [''ABC'']) key \<and>
      (sep = [] \<and> '' a'' = [] \<or> (\<exists>c. sep = [c] \<and> \<not> is_upper c \<and> \<not> is_digit c)) \<and>
      replace_from (issueKeyRegex (Some [''ABC''])) (linkKey ''https://t/'') [] ''a xABC-1 b'' =
        u @ sep @ ''['' @ key @ '']('' @ ''https://t/'' @ key @ '')'' @
        replace_from (issueKeyRegex (Some [''ABC''])) (linkKey ''https://t/'') ''1-CBAx a'' '' b'')"
proof -
  have h: "search (issueKeyRegex (Some [''ABC''])) [] ''a xABC-1 b'' =
     Some ('' a'', (''1-CBAx a'', '' b'', [(1, ''ABC-1'')]))"
    by code_simp
  from issue_key_step[OF h, of "''https://t/''"] h show ?thesis
    by (simp add: rest_def)
qed

text \<open>
  C4. As the claim states it, rewriting a text that the rewriter has made would change
  nothing. The rewriter does not look for the brackets of a link: the key inside
  \<^verbatim>\<open>[KEY](trackerUrl + KEY)\<close> follows \<^verbatim>\<open>[\<close> and is found again. With the address
  \<^verbatim>\<open>https://t/\<close> the key in the address follows \<^verbatim>\<open>/\<close> and is wrapped again as well.
\<close>

theorem wrapped_key_wrapped_again:
  "linkIssueKeys (Some [''ABC'']) (Some ''https://t/'')
     (linkIssueKeys (Some [''ABC'']) (Some ''https://t/'') ''ABC-1'') =
   ''[[ABC-1](https://t/ABC-1)](https://t/[ABC-1](https://t/ABC-1))''"
  by code_simp

text \<open>
  C4, amended. Rewriting the output again gives the output back exactly when the rewriter
  had nothing to do on the input: no tracker address is configured, or the input has no
  match of the key pattern. In every other case the output has a match of the key pattern
  again, and rewriting it makes it longer.
\<close>

theorem linkIssueKeys_idempotent_iff:
  "(linkIssueKeys prefixes url (linkIssueKeys prefixes url s) = linkIssueKeys prefixes url s \<longleftrightarrow>
      \<not> truthy url \<or> search (issueKeyRegex prefixes) [] s = None) \<and>
   (truthy url \<and> search (issueKeyRegex prefixes) [] s \<noteq> None \<longrightarrow>
      search (issueKeyRegex prefixes) [] (linkIssueKeys prefixes url s) \<noteq> None \<and>
      length (linkIssueKeys prefixes url s) <
        length (linkIssueKeys prefixes url (linkIssueKeys prefixes url s)))"
  using relink_iff[of prefixes url s] relink_grows[of url prefixes s] by blast

theorem linkIssueKeys_idempotent_iff_witness:
  "linkIssueKeys (Some [''ABC'']) (Some ''https://t/'')
     (linkIssueKeys (Some [''ABC'']) (Some ''https://t/'') ''fix abc-1'') =
   linkIssueKeys (Some [''ABC'']) (Some ''https://t/'') ''fix abc-1'' \<and>
   linkIssueKeys (Some [''ABC'']) (Some ''https://t/'')
     (linkIssueKeys (Some [''ABC'']) (Some ''https://t/'') ''fix ABC-1'') \<noteq>
   linkIssueKeys (Some [''ABC'']) (Some ''https://t/'') ''fix ABC-1'' \<and>
   search (issueKeyRegex (Some [''ABC''])) []
     (linkIssueKeys (Some [''ABC'']) (Some ''https://t/'') ''fix ABC-1'') \<noteq> None \<and>
   length (linkIssueKeys (Some [''ABC'']) (Some ''https://t/'') ''fix ABC-1'') <
     length (linkIssueKeys (Some [''ABC'']) (Some ''https://t/'')
       (linkIssueKeys (Some [''ABC'']) (Some ''https://t/'') ''fix ABC-1''))"
proof -
  have 1: "search (issueKeyRegex (Some [''ABC''])) [] ''fix abc-1'' = None"
    by code_simp
  have 2: "search (issueKeyRegex (Some [''ABC''])) [] ''fix ABC-1'' \<noteq> None"
    by code_simp
  have 3: "truthy (Some ''https://t/'')"
    by (simp add: truthy_def)
  from linkIssueKeys_idempotent_iff[of "Some [''ABC'']" "Some ''https://t/''" "''fix abc-1''"]
    linkIssueKeys_idempotent_iff[of "Some [''ABC'']" "Some ''https://t/''" "''fix ABC-1''"] 1 2 3
  show ?thesis by simp
qed

section \<open>Breaking-change notes\<close>

text \<open>
  C8. As the claim states it, in every kept note only the first \<^verbatim>\<open>(#N)\<close> would be
  rewritten, and it would become \<^verbatim>\<open>([#N](host/owner/repo/issues/N))\<close>.
  \<^verbatim>\<open>replaceIssueLink\<close> writes into the note it is given: a note that a commit lists twice is
  rewritten twice, and its second reference is linked as well. The link is given to
  \<^verbatim>\<open>replace\<close> as a replacement text, in which \<^verbatim>\<open>$1\<close> stands for the digits of the match:
  with the host \<^verbatim>\<open>https://h$1\<close> the address of the link starts with \<^verbatim>\<open>https://h42\<close>.
\<close>

theorem later_reference_linked_too:
  "text (note_heap 0) = ''drop v1 (#42), see (#7)'' \<and>
   text (snd (snd (map_state (changelogCommit (buildContext plain_options) None None)
      ({}, note_heap) [breaking_commit\<lparr>notes := [0, 0]\<rparr>])) 0) =
     ''drop v1 ([#42](https://github.com/o/r/issues/42)), see ([#7](https://github.com/o/r/issues/7))'' \<and>
   \<not> first_issue_linked ''https://github.com'' ''o'' ''r'' ''drop v1 (#42), see (#7)''
     ''drop v1 ([#42](https://github.com/o/r/issues/42)), see ([#7](https://github.com/o/r/issues/7))'' \<and>
   text (snd (snd (map_state
      (changelogCommit (buildContext (plain_options\<lparr>host := Some ''https://h$1''\<rparr>)) None None)
      ({}, note_heap) [breaking_commit])) 0) =
     ''drop v1 ([#42](https://h42/o/r/issues/42)), see (#7)'' \<and>
   \<not> first_issue_linked ''https://h$1'' ''o'' ''r'' ''drop v1 (#42), see (#7)''
     ''drop v1 ([#42](https://h42/o/r/issues/42)), see (#7)''"
proof -
  let ?t = "''drop v1 (#42), see (#7)''"
  have r: "issue_ref_at ?t 8 ''42''"
    by (simp add: issue_ref_at_def is_digit_def code_def)
  have f: "\<not> issue_ref_at ?t k ds'" if "k < 8" for k ds'
  proof -
    from that have "k \<in> {0,1,2,3,4,5,6,7}" by auto
    then show ?thesis by (auto simp: issue_ref_at_def)
  qed
  have good: "first_issue_linked hst ''o'' ''r'' ?t
      (''drop v1 ([#42]('' @ hst @ ''/o/r/issues/42)), see (#7)'')" for hst
    unfolding first_issue_linked_def using r f
    by (intro disjI2 exI[of _ 8] exI[of _ "''42''"]) simp
  have 1: "text (note_heap 0) = ?t" by (simp add: note_heap_def)
  have 2: "text (snd (snd (map_state (changelogCommit (buildContext plain_options) None None)
      ({}, note_heap) [breaking_commit\<lparr>notes := [0, 0]\<rparr>])) 0) =
     ''drop v1 ([#42](https://github.com/o/r/issues/42)), see ([#7](https://github.com/o/r/issues/7))''"
    by code_simp
  have 3: "\<not> first_issue_linked ''https://github.com'' ''o'' ''r'' ?t
     ''drop v1 ([#42](https://github.com/o/r/issues/42)), see ([#7](https://github.com/o/r/issues/7))''"
    using first_issue_linked_unique[OF good[of "''https://github.com''"]] by fastforce
  have 4: "text (snd (snd (map_state
      (changelogCommit (buildContext (plain_options\<lparr>host := Some ''https://h$1''\<rparr>)) None None)
      ({}, note_heap) [breaking_commit])) 0) =
     ''drop v1 ([#42](https://h42/o/r/issues/42)), see (#7)''"
    by code_simp
  have 5: "\<not> first_issue_linked ''https://h$1'' ''o'' ''r'' ?t
     ''drop v1 ([#42](https://h42/o/r/issues/42)), see (#7)''"
    using first_issue_linked_unique[OF good[of "''https://h$1''"]] by fastforce
  from 1 2 3 4 5 show ?thesis by (intro conjI)
qed

text \<open>
  C8, amended. The commits are mapped to entries from a store \<open>h\<close>, which ends as \<open>h'\<close>.
  Every entry keeps exactly the notes of its commit that are titled \<^verbatim>\<open>BREAKING CHANGE\<close>, in
  order, and in the text of each kept note the first \<^verbatim>\<open>(#N)\<close> has become
  \<^verbatim>\<open>([#N](host/owner/repo/issues/N))\<close> while everything after it, later references
  included, is as it was. This is for commits that list no note titled
  \<^verbatim>\<open>BREAKING CHANGE\<close> twice, and for a host, owner and repository without \<^verbatim>\<open>$\<close>.
\<close>

theorem breaking_notes_kept_and_linked:
  assumes "map_state (changelogCommit context prefixes url) (seen, h) cs = (es, (seen', h'))"
    and "distinct (filter (\<lambda>n. title (h n) = ''BREAKING CHANGE'') (concat (map notes cs)))"
    and "CHR ''$'' \<notin> set (Context.host context) \<union> set (Context.owner context) \<union>
                       set (Context.repository context)"
  shows "map Entry.notes es =
           map (\<lambda>c. filter (\<lambda>n. title (h n) = ''BREAKING CHANGE'') (notes c)) cs \<and>
         (\<forall>ns \<in> set (map Entry.notes es). \<forall>n \<in> set ns.
            title (h' n) = ''BREAKING CHANGE'' \<and>
            first_issue_linked (Context.host context) (Context.owner context)
              (Context.repository context) (text (h n)) (text (h' n)))"
  using assms by (rule breaking_notes)

theorem breaking_notes_kept_and_linked_witness:
  "distinct (filter (\<lambda>n. title (note_heap n) = ''BREAKING CHANGE'')
     (concat (map notes [breaking_commit]))) \<and>
   CHR ''$'' \<notin> set (Context.host (buildContext plain_options)) \<union>
                set (Context.owner (buildContext plain_options)) \<union>
                set (Context.repository (buildContext plain_options)) \<and>
   map Entry.notes
     (fst (map_state (changelogCommit (buildContext plain_options) None None) ({}, note_heap)
        [breaking_commit])) = [[0, 2]] \<and>
   first_issue_linked ''https://github.com'' ''o'' ''r'' ''drop v1 (#42), see (#7)''
     ''drop v1 ([#42](https://github.com/o/r/issues/42)), see (#7)''"
proof -
  let ?X = "map_state (changelogCommit (buildContext plain_options) None None) ({}, note_heap)
        [breaking_commit]"
  have d: "distinct (filter (\<lambda>n. title (note_heap n) = ''BREAKING CHANGE'')
     (concat (map notes [breaking_commit])))"
    by (simp add: breaking_commit_def note_heap_def)
  have c: "Context.host (buildContext plain_options) = ''https://github.com''"
    "Context.owner (buildContext plain_options) = ''o''"
    "Context.repository (buildContext plain_options) = ''r''"
    by (simp_all add: buildContext_def plain_options_def or_else_def DEFAULT_HOST_def)
  have nd: "CHR ''$'' \<notin> set (Context.host (buildContext plain_options)) \<union>
                set (Context.owner (buildContext plain_options)) \<union>
                set (Context.repository (buildContext plain_options))"
    unfolding c by simp
  have x: "?X = (fst ?X, (fst (snd ?X), snd (snd ?X)))" by simp
  have n: "map Entry.notes (fst ?X) = [[0, 2]]" by code_simp
  have t: "text (note_heap 0) = ''drop v1 (#42), see (#7)''"
    "text (snd (snd ?X) 0) = ''drop v1 ([#42](https://github.com/o/r/issues/42)), see (#7)''"
    by code_simp+
  note T = breaking_notes_kept_and_linked[OF x d nd, THEN conjunct2]
  have m: "[0, 2] \<in> set (map Entry.notes (fst ?X))" unfolding n by simp
  have "(0::nat) \<in> set [0, 2]" by simp
  from T[THEN bspec, OF m, THEN bspec, OF this]
  have "first_issue_linked (Context.host (buildContext plain_options))
      (Context.owner (buildContext plain_options)) (Context.repository (buildContext plain_options))
      (text (note_heap 0)) (text (snd (snd ?X) 0))"
    by (rule conjunct2)
  then have "first_issue_linked ''https://github.com'' ''o'' ''r'' ''drop v1 (#42), see (#7)''
     ''drop v1 ([#42](https://github.com/o/r/issues/42)), see (#7)''"
    unfolding c t .
  with d nd n show ?thesis by (intro conjI)
qed

section \<open>What \<^verbatim>\<open>buildNotes\<close> changes\<close>

text \<open>
  C9. As the claim states it, the text of every note would be after the call what it was
  before. \<^verbatim>\<open>replaceIssueLink\<close> assigns the rewritten text to the note it is given, which is
  the note of the commit.
\<close>

theorem breaking_note_text_changed:
  "text (note_heap 0) = ''drop v1 (#42), see (#7)'' \<and>
   text (snd (buildNotes silent_writer plain_this note_heap [breaking_commit] plain_options) 0) =
     ''drop v1 ([#42](https://github.com/o/r/issues/42)), see (#7)''"
  by code_simp

text \<open>
  C9, amended. Commits, raw commits and options are values that \<^verbatim>\<open>buildNotes\<close> only reads.
  In the store, every note keeps its title, and a note whose text has changed is titled
  \<^verbatim>\<open>BREAKING CHANGE\<close> and is a note of one of the commits.
\<close>

theorem buildNotes_frame:
  assumes "buildNotes parseArray this h cs options = (out, h')"
  shows "(\<forall>n. title (h' n) = title (h n)) \<and>
         (\<forall>n. text (h' n) \<noteq> text (h n) \<longrightarrow>
              title (h n) = ''BREAKING CHANGE'' \<and> (\<exists>c \<in> set cs. n \<in> set (notes c)))"
  using assms by (rule buildNotes_frame_aux)

theorem buildNotes_frame_witness:
  "title (snd (buildNotes silent_writer plain_this note_heap [breaking_commit] plain_options) 0) =
     ''BREAKING CHANGE'' \<and>
   text (snd (buildNotes silent_writer plain_this note_heap [breaking_commit] plain_options) 1) =
     ''2.0.0''"
proof -
  let ?X = "buildNotes silent_writer plain_this note_heap [breaking_commit] plain_options"
  have x: "?X = (fst ?X, snd ?X)" by simp
  have t: "title (note_heap 0) = ''BREAKING CHANGE''" "title (note_heap 1) = ''RELEASE AS''"
    "text (note_heap 1) = ''2.0.0''"
    by (simp_all add: note_heap_def)
  from buildNotes_frame[OF x] have
    "title (snd ?X 0) = title (note_heap 0)"
    "text (snd ?X 1) \<noteq> text (note_heap 1) \<longrightarrow> title (note_heap 1) = ''BREAKING CHANGE''"
    by blast+
  then show ?thesis unfolding t by simp
qed

section \<open>One line for each entry\<close>




end
